theory Spec2Isabelle
  imports Main "HOL-Library.AList" "HOL-Library.Word"
begin

section \<open>Go maps\<close>

text \<open>
  A Go map is modelled as an association list: the order of the list is the order in
  which a \<^verbatim>\<open>range\<close> loop visits the entries (Go leaves it unspecified, so every
  statement below holds for any order).  Reading a missing key of a map of maps gives the
  nil map, which reads like the empty map; assigning into the nil map panics.
\<close>

datatype panic = AssignToNilMap | IndexOutOfRange | NilPointer | NegativeWaitGroupCounter

definition present :: "('k \<times> 'v) list \<Rightarrow> 'k \<Rightarrow> bool" where
  "present m k = (map_of m k \<noteq> None)"

definition index :: "('k \<times> ('j \<times> 'v) list) list \<Rightarrow> 'k \<Rightarrow> ('j \<times> 'v) list" where
  "index m k = (case map_of m k of None \<Rightarrow> [] | Some v \<Rightarrow> v)"

text \<open>
  \<^verbatim>\<open>for k, v := range m\<close> with a body that may assign a new value to the key
  it is visiting and that threads a state \<open>s\<close> through the iterations.
\<close>

fun rangeMap :: "('k \<Rightarrow> 'v \<Rightarrow> 's \<Rightarrow> 'v \<times> 's) \<Rightarrow> ('k \<times> 'v) list \<Rightarrow> 's \<Rightarrow> ('k \<times> 'v) list \<times> 's" where
  "rangeMap f [] s = ([], s)"
| "rangeMap f ((k, v) # kvs) s =
     (case f k v s of (v', s1) \<Rightarrow>
        (case rangeMap f kvs s1 of (kvs', s2) \<Rightarrow> ((k, v') # kvs', s2)))"

section \<open>Sub server: the acked offsets (sub\_server.go)\<close>

text \<open>
  \<^verbatim>\<open>ackedOffsets map[string]map[string]map[string]map[int]int64\<close>,
  commented \<^verbatim>\<open>[cluster][topic][group][partition]: offset\<close>.  No arithmetic is
  done on partitions and offsets, so both are \<open>int\<close>.
\<close>

record ackOffset =
  ack_cluster :: string
  ack_topic :: string
  ack_group :: string
  ack_Partition :: int
  ack_Offset :: int

type_synonym partitionOffsets = "(int \<times> int) list"
type_synonym groupPartitions = "(string \<times> partitionOffsets) list"
type_synonym clusterTopics = "(string \<times> groupPartitions) list"
type_synonym ackedOffsets = "(string \<times> clusterTopics) list"

definition lookup4 :: "ackedOffsets \<Rightarrow> string \<Rightarrow> string \<Rightarrow> string \<Rightarrow> int \<Rightarrow> int option" where
  "lookup4 ao c t g p =
     (case map_of ao c of None \<Rightarrow> None | Some ct \<Rightarrow>
        (case map_of ct t of None \<Rightarrow> None | Some gp \<Rightarrow>
           (case map_of gp g of None \<Rightarrow> None | Some po \<Rightarrow> map_of po p)))"

text \<open>\<^verbatim>\<open>ao[c][t] = v\<close>: the map \<^verbatim>\<open>ao[c]\<close> is read, then assigned into.\<close>

definition assign2 :: "ackedOffsets \<Rightarrow> string \<Rightarrow> string \<Rightarrow> groupPartitions \<Rightarrow> panic + ackedOffsets" where
  "assign2 ao c t v =
     (case map_of ao c of None \<Rightarrow> Inl AssignToNilMap
      | Some ct \<Rightarrow> Inr (AList.update c (AList.update t v ct) ao))"

definition assign3 :: "ackedOffsets \<Rightarrow> string \<Rightarrow> string \<Rightarrow> string \<Rightarrow> partitionOffsets \<Rightarrow> panic + ackedOffsets" where
  "assign3 ao c t g v =
     (case map_of ao c of None \<Rightarrow> Inl AssignToNilMap
      | Some ct \<Rightarrow>
          (case map_of ct t of None \<Rightarrow> Inl AssignToNilMap
           | Some gp \<Rightarrow> Inr (AList.update c (AList.update t (AList.update g v gp) ct) ao)))"

definition assign4 :: "ackedOffsets \<Rightarrow> string \<Rightarrow> string \<Rightarrow> string \<Rightarrow> int \<Rightarrow> int \<Rightarrow> panic + ackedOffsets" where
  "assign4 ao c t g p v =
     (case map_of ao c of None \<Rightarrow> Inl AssignToNilMap
      | Some ct \<Rightarrow>
          (case map_of ct t of None \<Rightarrow> Inl AssignToNilMap
           | Some gp \<Rightarrow>
               (case map_of gp g of None \<Rightarrow> Inl AssignToNilMap
                | Some po \<Rightarrow>
                    Inr (AList.update c (AList.update t (AList.update g (AList.update p v po) gp) ct) ao))))"

text \<open>
  The body of \<^verbatim>\<open>for _, ack := range acks\<close> in \<^verbatim>\<open>ackCommitter\<close>.  The third
  test reads \<^verbatim>\<open>this.ackedOffsets[ack.topic][ack.group]\<close>, as the source does: the
  topic is used as the first key and the group as the second.
\<close>

definition recordAck :: "ackedOffsets \<Rightarrow> ackOffset \<Rightarrow> panic + ackedOffsets" where
  "recordAck ao ack =
     (let ao1 = (if \<not> present ao (ack_cluster ack)
                 then AList.update (ack_cluster ack) [] ao else ao)
      in case (if \<not> present (index ao1 (ack_cluster ack)) (ack_topic ack)
               then assign2 ao1 (ack_cluster ack) (ack_topic ack) [] else Inr ao1) of
           Inl e \<Rightarrow> Inl e
         | Inr ao2 \<Rightarrow>
            (case (if \<not> present (index ao2 (ack_topic ack)) (ack_group ack)
                   then assign3 ao2 (ack_cluster ack) (ack_topic ack) (ack_group ack) []
                   else Inr ao2) of
               Inl e \<Rightarrow> Inl e
             | Inr ao3 \<Rightarrow>
                 assign4 ao3 (ack_cluster ack) (ack_topic ack) (ack_group ack)
                   (ack_Partition ack) (ack_Offset ack)))"

fun recordAcks :: "ackedOffsets \<Rightarrow> ackOffset list \<Rightarrow> panic + ackedOffsets" where
  "recordAcks ao [] = Inr ao"
| "recordAcks ao (ack # acks) =
     (case recordAck ao ack of Inl e \<Rightarrow> Inl e | Inr ao' \<Rightarrow> recordAcks ao' acks)"

text \<open>Go maps have each key once, at every level.\<close>

definition wf_level :: "('v \<Rightarrow> bool) \<Rightarrow> ('k \<times> 'v) list \<Rightarrow> bool" where
  "wf_level Q m = (distinct (map fst m) \<and> (\<forall>v \<in> set (map snd m). Q v))"

definition wf_ackedOffsets :: "ackedOffsets \<Rightarrow> bool" where
  "wf_ackedOffsets ao = wf_level (wf_level (wf_level (\<lambda>po. distinct (map fst po)))) ao"

subsection \<open>The flush\<close>

text \<open>
  The coordination store is outside the repository: \<^verbatim>\<open>meta.Default.ZkCluster(cluster)
  .ResetConsumerGroupOffset(topic, group, strconv.Itoa(partition), offset)\<close> is a
  parameter that maps the store's state \<open>'z\<close> to the returned error (\<open>None\<close> is
  \<^verbatim>\<open>nil\<close>) and the next state.  The flush returns the calls it made, in order.
\<close>

datatype zkError = ErrNoNode | ErrOther

type_synonym slot = "string \<times> string \<times> string \<times> int"
type_synonym commitCall = "slot \<times> int \<times> zkError option"
type_synonym 'z resetOffset = "string \<Rightarrow> string \<Rightarrow> string \<Rightarrow> int \<Rightarrow> int \<Rightarrow> 'z \<Rightarrow> zkError option \<times> 'z"

definition commitSlot ::
  "'z resetOffset \<Rightarrow> string \<Rightarrow> string \<Rightarrow> string \<Rightarrow> int \<Rightarrow> int \<Rightarrow> 'z \<times> commitCall list
     \<Rightarrow> int \<times> ('z \<times> commitCall list)" where
  "commitSlot reset cluster topic grp part off s =
     (if off = - 1 then (off, s)
      else (case reset cluster topic grp part off (fst s) of
              (err, z') \<Rightarrow>
                (let calls' = snd s @ [((cluster, topic, grp, part), off, err)]
                 in case err of
                      Some e \<Rightarrow> (if e = ErrNoNode then (- 1, (z', calls')) else (off, (z', calls')))
                    | None \<Rightarrow> (- 1, (z', calls')))))"

definition commitOffsets ::
  "'z resetOffset \<Rightarrow> ackedOffsets \<Rightarrow> 'z \<Rightarrow> ackedOffsets \<times> 'z \<times> commitCall list" where
  "commitOffsets reset ao z =
     (case rangeMap (\<lambda>cluster clusterTopics.
             rangeMap (\<lambda>topic groupPartitions.
               rangeMap (\<lambda>grp partitionOffsets.
                 rangeMap (commitSlot reset cluster topic grp) partitionOffsets)
               groupPartitions)
             clusterTopics) ao (z, []) of
        (ao', (z', calls)) \<Rightarrow> (ao', z', calls))"

text \<open>
  The \<^verbatim>\<open>case acks, ok := <-this.ackCh\<close> branch with \<^verbatim>\<open>ok\<close> true: the batch is
  recorded, the batch counter \<^verbatim>\<open>n\<close> is incremented and every \<^verbatim>\<open>flushPerN\<close>
  batches the offsets are flushed.
\<close>

definition flushPerN :: int where
  "flushPerN = 4000"

definition onAcks ::
  "'z resetOffset \<Rightarrow> ackedOffsets \<times> int \<times> 'z \<Rightarrow> ackOffset list
     \<Rightarrow> panic + (ackedOffsets \<times> int \<times> 'z) \<times> commitCall list" where
  "onAcks reset st acks =
     (case st of (ao, n, z) \<Rightarrow>
        (case recordAcks ao acks of
           Inl e \<Rightarrow> Inl e
         | Inr ao' \<Rightarrow>
             (let n' = n + 1
              in if n' mod flushPerN = 0
                 then (case commitOffsets reset ao' z of
                         (ao'', z', calls) \<Rightarrow> Inr ((ao'', n', z'), calls))
                 else Inr ((ao', n', z), []))))"

section \<open>Job executor (executor.go)\<close>

record JobItem =
  JobId :: int
  Payload :: string
  Ctime :: int
  DueTime :: int

record JobExecutor =
  parentId :: string
  ex_cluster :: string
  ex_topic :: string

text \<open>
  The relational store, the broker and the hinted handoff are outside the repository.
  They are modelled from the interfaces the handler uses: the due table
  \<^verbatim>\<open>(job_id PK, payload, ctime, due_time)\<close> as a map from \<^verbatim>\<open>job_id\<close>, the history
  table as the list of the rows inserted, the broker and the hinted handoff as the lists of
  the messages they accepted.  Whether each call fails is a parameter (\<open>fate\<close>); a call
  that fails changes nothing.
\<close>

record jobWorld =
  due :: "int \<rightharpoonup> string \<times> int \<times> int"
  history :: "(int \<times> string \<times> int \<times> int \<times> int \<times> string) list"
  published :: "(string \<times> string \<times> string) list"
  handoff :: "(string \<times> string \<times> string) list"

record fate =
  deleteErr :: bool
  pubErr :: bool
  hhErr :: bool
  reinjectErr :: bool
  archiveErr :: bool

text \<open>
  \<^verbatim>\<open>DELETE FROM <table> WHERE job_id=?\<close>: the error, or the number of affected rows.
\<close>

definition execDelete :: "fate \<Rightarrow> int \<Rightarrow> jobWorld \<Rightarrow> (unit + int) \<times> jobWorld" where
  "execDelete ft job_id w =
     (if deleteErr ft then (Inl (), w)
      else (Inr (if due w job_id \<noteq> None then 1 else 0), w\<lparr>due := (due w)(job_id := None)\<rparr>))"

text \<open>\<^verbatim>\<open>store.DefaultPubStore.SyncPub(cluster, topic, nil, payload)\<close>: true when it fails.\<close>

definition syncPub :: "fate \<Rightarrow> string \<Rightarrow> string \<Rightarrow> string \<Rightarrow> jobWorld \<Rightarrow> bool \<times> jobWorld" where
  "syncPub ft c t payload w =
     (if pubErr ft then (True, w) else (False, w\<lparr>published := published w @ [(c, t, payload)]\<rparr>))"

text \<open>\<^verbatim>\<open>hh.Default.Append(cluster, topic, nil, payload)\<close>: true when it fails.\<close>

definition hhAppend :: "fate \<Rightarrow> string \<Rightarrow> string \<Rightarrow> string \<Rightarrow> jobWorld \<Rightarrow> bool \<times> jobWorld" where
  "hhAppend ft c t payload w =
     (if hhErr ft then (True, w) else (False, w\<lparr>handoff := handoff w @ [(c, t, payload)]\<rparr>))"

text \<open>
  \<^verbatim>\<open>INSERT INTO <table>(job_id, payload, ctime, due_time)\<close>; the handler ignores what
  the call returns.  An insert on a \<^verbatim>\<open>job_id\<close> that is in the table fails on the key.
\<close>

definition execReinject :: "fate \<Rightarrow> int \<Rightarrow> string \<Rightarrow> int \<Rightarrow> int \<Rightarrow> jobWorld \<Rightarrow> jobWorld" where
  "execReinject ft job_id payload ctime due_time w =
     (if reinjectErr ft \<or> due w job_id \<noteq> None then w
      else w\<lparr>due := (due w)(job_id \<mapsto> (payload, ctime, due_time))\<rparr>)"

text \<open>\<^verbatim>\<open>INSERT INTO <history table>(job_id,payload,ctime,due_time,etime,actor_id)\<close>: true when it fails.\<close>

definition execArchive ::
  "fate \<Rightarrow> int \<Rightarrow> string \<Rightarrow> int \<Rightarrow> int \<Rightarrow> int \<Rightarrow> string \<Rightarrow> jobWorld \<Rightarrow> bool \<times> jobWorld" where
  "execArchive ft job_id payload ctime due_time etime actor_id w =
     (if archiveErr ft then (True, w)
      else (False, w\<lparr>history := history w @ [(job_id, payload, ctime, due_time, etime, actor_id)]\<rparr>))"

text \<open>What the handler does, in order: the calls to the stores, the log lines, the audit line.\<close>

datatype jobCall =
    ExecDelete int
  | SyncPub string string string
  | HHAppend string string string
  | ExecReinject int string int int
  | ExecArchive int string int int int string
  | LogError
  | LogDebug
  | AuditTrace

text \<open>
  The body of \<^verbatim>\<open>case item := <-this.dueJobs\<close> in \<^verbatim>\<open>handleDueJobs\<close>;
  \<open>now\<close> is \<^verbatim>\<open>time.Now().Unix()\<close>.
\<close>

definition handleDueJob ::
  "JobExecutor \<Rightarrow> fate \<Rightarrow> int \<Rightarrow> JobItem \<Rightarrow> jobWorld \<Rightarrow> jobWorld \<times> jobCall list" where
  "handleDueJob this ft now item w =
     (case execDelete ft (JobId item) w of
        (Inl err, w1) \<Rightarrow> (w1, [ExecDelete (JobId item), LogError])
      | (Inr affectedRows, w1) \<Rightarrow>
          if affectedRows = 0 then (w1, [ExecDelete (JobId item)])
          else
            (case syncPub ft (ex_cluster this) (ex_topic this) (Payload item) w1 of
               (err1, w2) \<Rightarrow>
                 (case (if err1
                        then (case hhAppend ft (ex_cluster this) (ex_topic this) (Payload item) w2 of
                                (err2, w3) \<Rightarrow>
                                  (err2, w3, [HHAppend (ex_cluster this) (ex_topic this) (Payload item)]))
                        else (err1, w2, [])) of
                    (err, w3, hhCalls) \<Rightarrow>
                      (let calls = [ExecDelete (JobId item), LogDebug,
                                    SyncPub (ex_cluster this) (ex_topic this) (Payload item)] @ hhCalls
                       in if err
                          then (execReinject ft (JobId item) (Payload item) (Ctime item) (DueTime item) w3,
                                calls @ [LogError,
                                  ExecReinject (JobId item) (Payload item) (Ctime item) (DueTime item)])
                          else
                            (case execArchive ft (JobId item) (Payload item) (Ctime item)
                                    (DueTime item) now (parentId this) w3 of
                               (err3, w4) \<Rightarrow>
                                 (w4, calls @ [LogDebug, AuditTrace,
                                    ExecArchive (JobId item) (Payload item) (Ctime item)
                                      (DueTime item) now (parentId this),
                                    if err3 then LogError else LogDebug]))))))"

text \<open>The handler's loop, over the items it takes from the channel until it is stopped.\<close>

fun handleDueJobs ::
  "JobExecutor \<Rightarrow> (fate \<times> int \<times> JobItem) list \<Rightarrow> jobWorld \<Rightarrow> jobWorld \<times> jobCall list" where
  "handleDueJobs this [] w = (w, [])"
| "handleDueJobs this ((ft, now, item) # items) w =
     (case handleDueJob this ft now item w of
        (w1, calls1) \<Rightarrow>
          (case handleDueJobs this items w1 of (w2, calls2) \<Rightarrow> (w2, calls1 @ calls2)))"

definition hasHistory :: "jobWorld \<Rightarrow> int \<Rightarrow> bool" where
  "hasHistory w job_id = (\<exists>row \<in> set (history w). fst row = job_id)"

text \<open>
  What the flush has to do, said without the loops.  \<open>slots\<close> lists the slots of the
  mapping with their offsets, in the order in which the four loops visit them.
  \<open>callStore\<close> calls the store's offset-set operation on a list of slots, one call per
  slot and in order, each call in the state the store was left in by the one before; it
  appends to the trace the slot, the offset and the error the store returned.
\<close>

definition slotsOfGroup :: "string \<Rightarrow> string \<Rightarrow> string \<Rightarrow> partitionOffsets \<Rightarrow> (slot \<times> int) list" where
  "slotsOfGroup c t g po = map (\<lambda>(p, off). ((c, t, g, p), off)) po"

definition slotsOfTopic :: "string \<Rightarrow> string \<Rightarrow> groupPartitions \<Rightarrow> (slot \<times> int) list" where
  "slotsOfTopic c t gp = concat (map (\<lambda>(g, po). slotsOfGroup c t g po) gp)"

definition slotsOfCluster :: "string \<Rightarrow> clusterTopics \<Rightarrow> (slot \<times> int) list" where
  "slotsOfCluster c ct = concat (map (\<lambda>(t, gp). slotsOfTopic c t gp) ct)"

definition slots :: "ackedOffsets \<Rightarrow> (slot \<times> int) list" where
  "slots ao = concat (map (\<lambda>(c, ct). slotsOfCluster c ct) ao)"

definition storeCall :: "'z resetOffset \<Rightarrow> slot \<times> int \<Rightarrow> 'z \<times> commitCall list \<Rightarrow> 'z \<times> commitCall list" where
  "storeCall reset x s =
     (case x of ((c, t, g, p), off) \<Rightarrow>
        (case reset c t g p off (fst s) of
           (err, z') \<Rightarrow> (z', snd s @ [((c, t, g, p), off, err)])))"

definition callStore :: "'z resetOffset \<Rightarrow> (slot \<times> int) list \<Rightarrow> 'z \<times> commitCall list \<Rightarrow> 'z \<times> commitCall list" where
  "callStore reset xs s = fold (storeCall reset) xs s"

text \<open>Reading the flush's result: the calls made for one slot, and what a slot holds after its call.\<close>

definition callsFor :: "slot \<Rightarrow> 'z \<times> commitCall list \<Rightarrow> commitCall list" where
  "callsFor K s = filter (\<lambda>cl. fst cl = K) (snd s)"

definition slotAfter :: "int \<Rightarrow> zkError option \<Rightarrow> int" where
  "slotAfter off err = (if off = - 1 then - 1 else if err = None \<or> err = Some ErrNoNode then - 1 else off)"

definition callsAdded :: "slot \<Rightarrow> int \<Rightarrow> zkError option \<Rightarrow> commitCall list" where
  "callsAdded K off err = (if off = - 1 then [] else [(K, off, err)])"

section \<open>Sub server: connection states (sub\_server.go)\<close>

datatype ConnState = StateNew | StateActive | StateIdle | StateHijacked | StateClosed

text \<open>
  Of the gateway the handler reads the shutdown channel, which is only ever closed, and
  updates two counters of the server metrics.
\<close>

record Gateway =
  shutdownCh_closed :: bool
  ConcurrentSub :: int
  ConcurrentSubWs :: int

text \<open>
  The fields of \<^verbatim>\<open>subServer\<close> that \<^verbatim>\<open>connStateHandler\<close> touches.  Connections
  are values of a type \<open>'c\<close>; \<open>closedConns\<close> collects the connections on which the
  handler called \<^verbatim>\<open>Close()\<close>.  \<open>closedConnCh\<close> holds the addresses sent and not yet
  received; its capacity is \<^verbatim>\<open>1<<10\<close>, and a send on the full channel blocks.
  \<open>idleConnsWg\<close> is the counter of the wait group, whose \<^verbatim>\<open>Done()\<close> panics when
  the counter would become negative; \<open>activeConnN\<close> is an \<^verbatim>\<open>int32\<close> updated with
  \<^verbatim>\<open>atomic.AddInt32\<close>.
\<close>

record 'c subServer =
  gw :: "Gateway option"
  idleConnsWg :: int
  activeConnN :: "32 word"
  closedConnCh :: "string list"
  idleConns :: "'c set"
  closedConns :: "'c set"

datatype stop = Panic panic | BlockedOnSend

text \<open>\<^verbatim>\<open>if this.gw != nil && !Options.DisableMetrics { ... }\<close>\<close>

definition withMetrics :: "bool \<Rightarrow> (Gateway \<Rightarrow> Gateway) \<Rightarrow> 'c subServer \<Rightarrow> 'c subServer" where
  "withMetrics disableMetrics f s =
     (case gw s of
        Some g \<Rightarrow> if \<not> disableMetrics then s\<lparr>gw := Some (f g)\<rparr> else s
      | None \<Rightarrow> s)"

text \<open>
  \<^verbatim>\<open>connStateHandler(c, cs)\<close>; \<open>disableMetrics\<close> is \<^verbatim>\<open>Options.DisableMetrics\<close>
  and \<open>remoteAddr c\<close> is \<^verbatim>\<open>c.RemoteAddr().String()\<close>.  The idle case reads
  \<^verbatim>\<open>this.gw.shutdownCh\<close> without the nil test of the other cases.
\<close>

definition connStateHandler ::
  "bool \<Rightarrow> ('c \<Rightarrow> string) \<Rightarrow> 'c subServer \<Rightarrow> 'c \<Rightarrow> ConnState \<Rightarrow> stop + 'c subServer" where
  "connStateHandler disableMetrics remoteAddr s c cs =
     (case cs of
        StateNew \<Rightarrow>
          Inr (withMetrics disableMetrics (\<lambda>g. g\<lparr>ConcurrentSub := ConcurrentSub g + 1\<rparr>)
                 (s\<lparr>idleConnsWg := idleConnsWg s + 1, activeConnN := activeConnN s + 1\<rparr>))
      | StateActive \<Rightarrow> Inr (s\<lparr>idleConns := idleConns s - {c}\<rparr>)
      | StateIdle \<Rightarrow>
          (case gw s of
             None \<Rightarrow> Inl (Panic NilPointer)
           | Some g \<Rightarrow>
               if shutdownCh_closed g
               then Inr (s\<lparr>closedConns := insert c (closedConns s), idleConns := idleConns s - {c}\<rparr>)
               else Inr (s\<lparr>idleConns := insert c (idleConns s)\<rparr>))
      | StateHijacked \<Rightarrow>
          Inr (withMetrics disableMetrics
                 (\<lambda>g. g\<lparr>ConcurrentSub := ConcurrentSub g - 1, ConcurrentSubWs := ConcurrentSubWs g + 1\<rparr>)
                 (s\<lparr>idleConns := idleConns s - {c}, activeConnN := activeConnN s - 1\<rparr>))
      | StateClosed \<Rightarrow>
          (let s1 = withMetrics disableMetrics (\<lambda>g. g\<lparr>ConcurrentSub := ConcurrentSub g - 1\<rparr>) s
           in if length (closedConnCh s1) \<ge> 1024 then Inl BlockedOnSend
              else if idleConnsWg s1 - 1 < 0 then Inl (Panic NegativeWaitGroupCounter)
              else Inr (s1\<lparr>closedConnCh := closedConnCh s1 @ [remoteAddr c],
                           idleConnsWg := idleConnsWg s1 - 1,
                           activeConnN := activeConnN s1 - 1,
                           idleConns := idleConns s1 - {c}\<rparr>)))"

text \<open>The callbacks of the HTTP server, one after the other.\<close>

fun connStates ::
  "bool \<Rightarrow> ('c \<Rightarrow> string) \<Rightarrow> 'c subServer \<Rightarrow> ('c \<times> ConnState) list \<Rightarrow> stop + 'c subServer" where
  "connStates disableMetrics remoteAddr s [] = Inr s"
| "connStates disableMetrics remoteAddr s ((c, cs) # evs) =
     (case connStateHandler disableMetrics remoteAddr s c cs of
        Inl e \<Rightarrow> Inl e
      | Inr s' \<Rightarrow> connStates disableMetrics remoteAddr s' evs)"

definition shutdownBegun :: "'c subServer \<Rightarrow> bool" where
  "shutdownBegun s = (case gw s of Some g \<Rightarrow> shutdownCh_closed g | None \<Rightarrow> False)"

section \<open>Hinted handoff: the disk service (hh/disk/service.go)\<close>

datatype error = ErrNotOpen | Err string

record Config =
  Dirs :: "string list"
  PurgeInterval :: int
  MaxAge :: int

record clusterTopic =
  cluster :: string
  topic :: string

record block =
  b_magic :: "nat \<times> nat"
  b_key :: string
  b_value :: string

definition currentMagic :: "nat \<times> nat" where
  "currentMagic = (0, 0)"

text \<open>
  The queue, the helpers \<^verbatim>\<open>mkdirIfNotExist\<close>, \<^verbatim>\<open>ClusterDir\<close>, \<^verbatim>\<open>TopicDir\<close> and
  the file system are not in the files at hand; they are parameters.  A queue is a value
  of type \<open>'q\<close>, everything on disk (and the package's timer) a value of type \<open>'w\<close>,
  and each operation maps both to what it returns and to their next values.
\<close>

record ('q, 'w) env =
  mkdirIfNotExist :: "string \<Rightarrow> 'w \<Rightarrow> error option \<times> 'w"
  readDir :: "string \<Rightarrow> 'w \<Rightarrow> error + (string \<times> bool) list"
  joinPath :: "string \<Rightarrow> string \<Rightarrow> string"
  mkdirAll :: "string \<Rightarrow> 'w \<Rightarrow> error option \<times> 'w"
  isExist :: "error \<Rightarrow> bool"
  ClusterDir :: "clusterTopic \<Rightarrow> string \<Rightarrow> string"
  TopicDir :: "clusterTopic \<Rightarrow> string \<Rightarrow> string"
  newQueue :: "clusterTopic \<Rightarrow> string \<Rightarrow> int \<Rightarrow> int \<Rightarrow> int \<Rightarrow> 'q"
  qOpen :: "'q \<Rightarrow> 'w \<Rightarrow> error option \<times> 'q \<times> 'w"
  qStart :: "'q \<Rightarrow> 'w \<Rightarrow> 'q \<times> 'w"
  qClose :: "'q \<Rightarrow> 'w \<Rightarrow> 'q \<times> 'w"
  qAppend :: "'q \<Rightarrow> block \<Rightarrow> 'w \<Rightarrow> error option \<times> 'q \<times> 'w"
  qInflights :: "'q \<Rightarrow> 'w \<Rightarrow> 64 word"
  qEmptyInflight :: "'q \<Rightarrow> 'w \<Rightarrow> bool"
  qFlushInflights :: "'q \<Rightarrow> 'w \<Rightarrow> error list \<times> 'q \<times> 'w"
  newTimer :: "'w \<Rightarrow> 'w"
  timerStop :: "'w \<Rightarrow> 'w"

record 'q Service =
  cfg :: Config
  closed :: bool
  queues :: "(clusterTopic \<times> 'q) list"

datatype hhLog =
    LogRunFlushInflights
  | LogFlushInflightsDir string error
  | LogFlushInflights error

definition New :: "('q, 'w) env \<Rightarrow> Config \<Rightarrow> 'w \<Rightarrow> 'q Service \<times> 'w" where
  "New env c w = (\<lparr>cfg = c, closed = True, queues = []\<rparr>, newTimer env w)"

text \<open>\<^verbatim>\<open>this.cfg.Dirs[0]\<close>\<close>

definition nextDir :: "'q Service \<Rightarrow> panic + string" where
  "nextDir this = (case Dirs (cfg this) of [] \<Rightarrow> Inl IndexOutOfRange | dir # _ \<Rightarrow> Inr dir)"

text \<open>
  \<^verbatim>\<open>createAndOpenQueue\<close>: the queue is stored in the registry before it is opened, and
  stays there when the opening fails.
\<close>

definition createAndOpenQueue ::
  "('q, 'w) env \<Rightarrow> 'q Service \<Rightarrow> clusterTopic \<Rightarrow> bool \<Rightarrow> 'w
     \<Rightarrow> panic + error option \<times> 'q Service \<times> 'w" where
  "createAndOpenQueue env this ct start w =
     (case nextDir this of
        Inl p \<Rightarrow> Inl p
      | Inr dir \<Rightarrow>
          (case mkdirAll env (ClusterDir env ct dir) w of
             (err, w1) \<Rightarrow>
               if (case err of Some e \<Rightarrow> \<not> isExist env e | None \<Rightarrow> False)
               then Inr (err, this, w1)
               else
                 (case qOpen env (newQueue env ct (TopicDir env ct dir) (- 1)
                                    (PurgeInterval (cfg this)) (MaxAge (cfg this))) w1 of
                    (err2, q1, w2) \<Rightarrow>
                      (case err2 of
                         Some e \<Rightarrow> Inr (Some e, this\<lparr>queues := AList.update ct q1 (queues this)\<rparr>, w2)
                       | None \<Rightarrow>
                           if start
                           then (case qStart env q1 w2 of
                                   (q2, w3) \<Rightarrow>
                                     Inr (None, this\<lparr>queues := AList.update ct q2 (queues this)\<rparr>, w3))
                           else Inr (None, this\<lparr>queues := AList.update ct q1 (queues this)\<rparr>, w2)))))"

text \<open>\<^verbatim>\<open>loadQueues\<close>: the loop over the topics of a cluster, the loop over the clusters.\<close>

fun loadTopics ::
  "('q, 'w) env \<Rightarrow> 'q Service \<Rightarrow> string \<Rightarrow> (string \<times> bool) list \<Rightarrow> bool \<Rightarrow> 'w
     \<Rightarrow> panic + error option \<times> 'q Service \<times> 'w" where
  "loadTopics env this cname [] startQueues w = Inr (None, this, w)"
| "loadTopics env this cname ((tname, isDir) # topics) startQueues w =
     (if \<not> isDir then loadTopics env this cname topics startQueues w
      else (case createAndOpenQueue env this \<lparr>cluster = cname, topic = tname\<rparr> startQueues w of
              Inl p \<Rightarrow> Inl p
            | Inr (Some e, this1, w1) \<Rightarrow> Inr (Some e, this1, w1)
            | Inr (None, this1, w1) \<Rightarrow> loadTopics env this1 cname topics startQueues w1))"

fun loadClusters ::
  "('q, 'w) env \<Rightarrow> 'q Service \<Rightarrow> string \<Rightarrow> (string \<times> bool) list \<Rightarrow> bool \<Rightarrow> 'w
     \<Rightarrow> panic + error option \<times> 'q Service \<times> 'w" where
  "loadClusters env this dir [] startQueues w = Inr (None, this, w)"
| "loadClusters env this dir ((cname, isDir) # clusters) startQueues w =
     (if \<not> isDir then loadClusters env this dir clusters startQueues w
      else (case readDir env (joinPath env dir cname) w of
              Inl e \<Rightarrow> Inr (Some e, this, w)
            | Inr topics \<Rightarrow>
                (case loadTopics env this cname topics startQueues w of
                   Inl p \<Rightarrow> Inl p
                 | Inr (Some e, this1, w1) \<Rightarrow> Inr (Some e, this1, w1)
                 | Inr (None, this1, w1) \<Rightarrow> loadClusters env this1 dir clusters startQueues w1)))"

definition loadQueues ::
  "('q, 'w) env \<Rightarrow> 'q Service \<Rightarrow> string \<Rightarrow> bool \<Rightarrow> 'w
     \<Rightarrow> panic + error option \<times> 'q Service \<times> 'w" where
  "loadQueues env this dir startQueues w =
     (case readDir env dir w of
        Inl e \<Rightarrow> Inr (Some e, this, w)
      | Inr clusters \<Rightarrow> loadClusters env this dir clusters startQueues w)"

text \<open>\<^verbatim>\<open>Start\<close>: the loop over \<^verbatim>\<open>cfg.Dirs\<close>, then \<^verbatim>\<open>this.closed = false\<close>.\<close>

fun startDirs ::
  "('q, 'w) env \<Rightarrow> 'q Service \<Rightarrow> string list \<Rightarrow> 'w \<Rightarrow> panic + error option \<times> 'q Service \<times> 'w" where
  "startDirs env this [] w = Inr (None, this, w)"
| "startDirs env this (dir # dirs) w =
     (case mkdirIfNotExist env dir w of
        (Some e, w1) \<Rightarrow> Inr (Some e, this, w1)
      | (None, w1) \<Rightarrow>
          (case loadQueues env this dir True w1 of
             Inl p \<Rightarrow> Inl p
           | Inr (Some e, this1, w2) \<Rightarrow> Inr (Some e, this1, w2)
           | Inr (None, this1, w2) \<Rightarrow> startDirs env this1 dirs w2))"

definition Start ::
  "('q, 'w) env \<Rightarrow> 'q Service \<Rightarrow> 'w \<Rightarrow> panic + error option \<times> 'q Service \<times> 'w" where
  "Start env this w =
     (case startDirs env this (Dirs (cfg this)) w of
        Inl p \<Rightarrow> Inl p
      | Inr (Some e, this1, w1) \<Rightarrow> Inr (Some e, this1, w1)
      | Inr (None, this1, w1) \<Rightarrow> Inr (None, this1\<lparr>closed := False\<rparr>, w1))"

definition Stop :: "('q, 'w) env \<Rightarrow> 'q Service \<Rightarrow> 'w \<Rightarrow> 'q Service \<times> 'w" where
  "Stop env this w =
     (if closed this then (this, w)
      else (case rangeMap (\<lambda>ct q. qClose env q) (queues this) w of
              (qs, w1) \<Rightarrow> (this\<lparr>queues := [], closed := True\<rparr>, timerStop env w1)))"

text \<open>
  \<^verbatim>\<open>Inflights\<close>: the sum is an \<^verbatim>\<open>int64\<close>, a 64-bit word whose addition wraps around
  (\<open>sint\<close> reads it as the signed number).
\<close>

definition Inflights :: "('q, 'w) env \<Rightarrow> 'q Service \<Rightarrow> 'w \<Rightarrow> 64 word" where
  "Inflights env this w = fold (\<lambda>(ct, q) n. n + qInflights env q w) (queues this) 0"

text \<open>
  \<^verbatim>\<open>Append\<close>.  The registry is read twice, under the read lock and again under the
  write lock, before a queue is created.
\<close>

definition appendTo ::
  "('q, 'w) env \<Rightarrow> 'q Service \<Rightarrow> clusterTopic \<Rightarrow> 'q \<Rightarrow> block \<Rightarrow> 'w
     \<Rightarrow> error option \<times> 'q Service \<times> 'w" where
  "appendTo env this ct q b w =
     (case qAppend env q b w of
        (err, q1, w1) \<Rightarrow> (err, this\<lparr>queues := AList.update ct q1 (queues this)\<rparr>, w1))"

definition Append ::
  "('q, 'w) env \<Rightarrow> 'q Service \<Rightarrow> string \<Rightarrow> string \<Rightarrow> string \<Rightarrow> string \<Rightarrow> 'w
     \<Rightarrow> panic + error option \<times> 'q Service \<times> 'w" where
  "Append env this cl tp k v w =
     (if closed this then Inr (Some ErrNotOpen, this, w)
      else
        (let b = \<lparr>b_magic = currentMagic, b_key = k, b_value = v\<rparr>;
             ct = \<lparr>cluster = cl, topic = tp\<rparr>
         in case map_of (queues this) ct of
              Some q \<Rightarrow> Inr (appendTo env this ct q b w)
            | None \<Rightarrow>
                (case map_of (queues this) ct of
                   Some q \<Rightarrow> Inr (appendTo env this ct q b w)
                 | None \<Rightarrow>
                     (case createAndOpenQueue env this ct True w of
                        Inl p \<Rightarrow> Inl p
                      | Inr (Some e, this1, w1) \<Rightarrow> Inr (Some e, this1, w1)
                      | Inr (None, this1, w1) \<Rightarrow>
                          (case map_of (queues this1) ct of
                             Some q \<Rightarrow> Inr (appendTo env this1 ct q b w1)
                           | None \<Rightarrow> Inl NilPointer)))))"

definition Empty :: "('q, 'w) env \<Rightarrow> 'q Service \<Rightarrow> string \<Rightarrow> string \<Rightarrow> 'w \<Rightarrow> bool" where
  "Empty env this cl tp w =
     (case map_of (queues this) \<lparr>cluster = cl, topic = tp\<rparr> of
        None \<Rightarrow> True
      | Some q \<Rightarrow> qEmptyInflight env q w)"

text \<open>
  \<^verbatim>\<open>FlushInflights\<close>.  After the test of \<^verbatim>\<open>closed\<close>: the queues of every directory are
  loaded without being started, then every queue replays its blocks and the errors the
  queues report are logged.  The source runs one goroutine per queue; here they run one
  after the other.
\<close>

fun flushLoadDirs ::
  "('q, 'w) env \<Rightarrow> 'q Service \<Rightarrow> string list \<Rightarrow> 'w
     \<Rightarrow> panic + (string \<times> error) option \<times> 'q Service \<times> 'w" where
  "flushLoadDirs env this [] w = Inr (None, this, w)"
| "flushLoadDirs env this (dir # dirs) w =
     (case loadQueues env this dir False w of
        Inl p \<Rightarrow> Inl p
      | Inr (Some e, this1, w1) \<Rightarrow> Inr (Some (dir, e), this1, w1)
      | Inr (None, this1, w1) \<Rightarrow> flushLoadDirs env this1 dirs w1)"

definition flushInflightsClosed ::
  "('q, 'w) env \<Rightarrow> 'q Service \<Rightarrow> 'w \<Rightarrow> panic + 'q Service \<times> 'w \<times> hhLog list" where
  "flushInflightsClosed env this w =
     (case flushLoadDirs env this (Dirs (cfg this)) w of
        Inl p \<Rightarrow> Inl p
      | Inr (Some (dir, e), this1, w1) \<Rightarrow> Inr (this1, w1, [LogFlushInflightsDir dir e])
      | Inr (None, this1, w1) \<Rightarrow>
          (case rangeMap (\<lambda>ct q s. case qFlushInflights env q (fst s) of
                                      (errs, q1, w2) \<Rightarrow> (q1, (w2, snd s @ errs)))
                  (queues this1) (w1, []) of
             (qs, (w2, errs)) \<Rightarrow> Inr (this1\<lparr>queues := qs\<rparr>, w2, map LogFlushInflights errs)))"

definition FlushInflights ::
  "('q, 'w) env \<Rightarrow> 'q Service \<Rightarrow> 'w \<Rightarrow> panic + 'q Service \<times> 'w \<times> hhLog list" where
  "FlushInflights env this w =
     (if \<not> closed this then Inr (this, w, [LogRunFlushInflights])
      else flushInflightsClosed env this w)"

text \<open>The calls a client of the service makes, and what each returns.\<close>

datatype svcCall =
    CallStart
  | CallStop
  | CallAppend string string string string
  | CallFlushInflights
  | CallInflights
  | CallEmpty string string

datatype svcRet = RetError "error option" | RetLog "hhLog list" | RetInt "64 word" | RetBool bool | RetUnit

definition callService ::
  "('q, 'w) env \<Rightarrow> 'q Service \<times> 'w \<Rightarrow> svcCall \<Rightarrow> panic + ('q Service \<times> 'w) \<times> svcRet" where
  "callService env st call =
     (case st of (this, w) \<Rightarrow>
        (case call of
           CallStart \<Rightarrow>
             (case Start env this w of
                Inl p \<Rightarrow> Inl p | Inr (err, this1, w1) \<Rightarrow> Inr ((this1, w1), RetError err))
         | CallStop \<Rightarrow> Inr (Stop env this w, RetUnit)
         | CallAppend cl tp k v \<Rightarrow>
             (case Append env this cl tp k v w of
                Inl p \<Rightarrow> Inl p | Inr (err, this1, w1) \<Rightarrow> Inr ((this1, w1), RetError err))
         | CallFlushInflights \<Rightarrow>
             (case FlushInflights env this w of
                Inl p \<Rightarrow> Inl p | Inr (this1, w1, lg) \<Rightarrow> Inr ((this1, w1), RetLog lg))
         | CallInflights \<Rightarrow> Inr ((this, w), RetInt (Inflights env this w))
         | CallEmpty cl tp \<Rightarrow> Inr ((this, w), RetBool (Empty env this cl tp w))))"

fun runService ::
  "('q, 'w) env \<Rightarrow> 'q Service \<times> 'w \<Rightarrow> svcCall list \<Rightarrow> panic + ('q Service \<times> 'w) \<times> svcRet list" where
  "runService env st [] = Inr (st, [])"
| "runService env st (call # calls) =
     (case callService env st call of
        Inl p \<Rightarrow> Inl p
      | Inr (st1, r) \<Rightarrow>
          (case runService env st1 calls of
             Inl p \<Rightarrow> Inl p
           | Inr (st2, rs) \<Rightarrow> Inr (st2, r # rs)))"

text \<open>Some \<^verbatim>\<open>Start\<close> of the run returned \<^verbatim>\<open>nil\<close>.\<close>

definition startSucceeded :: "svcCall list \<Rightarrow> svcRet list \<Rightarrow> bool" where
  "startSucceeded calls rets = ((CallStart, RetError None) \<in> set (zip calls rets))"

text \<open>
  For the examples: a disk on which every directory is empty and every call succeeds,
  with queues that keep the blocks appended to them.
\<close>

definition emptyDisk :: "(block list, unit) env" where
  "emptyDisk =
     \<lparr>mkdirIfNotExist = (\<lambda>dir w. (None, w)),
      readDir = (\<lambda>dir w. Inr []),
      joinPath = (\<lambda>a b. a @ ''/'' @ b),
      mkdirAll = (\<lambda>dir w. (None, w)),
      isExist = (\<lambda>e. False),
      ClusterDir = (\<lambda>ct dir. dir @ ''/'' @ cluster ct),
      TopicDir = (\<lambda>ct dir. dir @ ''/'' @ cluster ct @ ''/'' @ topic ct),
      newQueue = (\<lambda>ct dir maxSize purgeInterval maxAge. []),
      qOpen = (\<lambda>q w. (None, q, w)),
      qStart = (\<lambda>q w. (q, w)),
      qClose = (\<lambda>q w. (q, w)),
      qAppend = (\<lambda>q b w. (None, q @ [b], w)),
      qInflights = (\<lambda>q w. of_nat (length q)),
      qEmptyInflight = (\<lambda>q w. q = []),
      qFlushInflights = (\<lambda>q w. ([], [], w)),
      newTimer = (\<lambda>w. w),
      timerStop = (\<lambda>w. w)\<rparr>"

section \<open>Theorems\<close>

subsection \<open>Recording acks\<close>

lemma lookup4_assign4:
  "assign4 ao c t g p v = Inr ao' \<Longrightarrow> lookup4 ao' c t g p = Some v"
  by (auto simp: assign4_def lookup4_def update_conv' split: option.splits)

lemma recordAck_recorded:
  "recordAck ao ack = Inr ao' \<Longrightarrow>
     lookup4 ao' (ack_cluster ack) (ack_topic ack) (ack_group ack) (ack_Partition ack)
       = Some (ack_Offset ack)"
  by (auto simp: recordAck_def Let_def lookup4_assign4 split: sum.splits if_splits)

text \<open>
  C1.  The claim: every ack of a batch is recorded under cluster, topic, group, partition,
  and no other key path is created or modified.  The code tests the presence of the group
  map under \<^verbatim>\<open>ackedOffsets[ack.topic][ack.group]\<close>, which is absent unless a cluster
  is named like the topic; so the group map is made anew at each ack and the offsets of the
  other partitions of the group are dropped.  From the empty mapping, the batch
  \<open>(c, t, g, 0, 5), (c, t, g, 1, 6)\<close> leaves partition 1 only: the ack of partition 0
  is gone.
\<close>

theorem C1_recordAcks_drops_partition:
  "recordAcks []
     [\<lparr>ack_cluster = ''c'', ack_topic = ''t'', ack_group = ''g'', ack_Partition = 0, ack_Offset = 5\<rparr>,
      \<lparr>ack_cluster = ''c'', ack_topic = ''t'', ack_group = ''g'', ack_Partition = 1, ack_Offset = 6\<rparr>]
     = Inr [(''c'', [(''t'', [(''g'', [(1, 6)])])])]
   \<and> lookup4 [(''c'', [(''t'', [(''g'', [(1, 6)])])])] ''c'' ''t'' ''g'' 0 = None"
  by (simp add: recordAck_def present_def index_def assign2_def assign3_def assign4_def
      lookup4_def Let_def)

subsection \<open>Ranging over a map\<close>

lemma rangeMap_Cons:
  "rangeMap f ((k, v) # kvs) s =
     ((k, fst (f k v s)) # fst (rangeMap f kvs (snd (f k v s))),
      snd (rangeMap f kvs (snd (f k v s))))"
  by (simp split: prod.splits)

lemma rangeMap_keys: "map fst (fst (rangeMap f kvs s)) = map fst kvs"
  by (induction kvs arbitrary: s) (auto simp: rangeMap_Cons simp del: rangeMap.simps(2))

lemma rangeMap_obs_all:
  assumes "\<And>k v s. (k, v) \<in> set kvs \<Longrightarrow> obs (snd (f k v s)) = obs s"
  shows "obs (snd (rangeMap f kvs s)) = obs s"
  using assms
proof (induction kvs arbitrary: s)
  case Nil
  then show ?case by simp
next
  case (Cons kv kvs)
  obtain k v where kv: "kv = (k, v)" by (cases kv)
  have "obs (snd (rangeMap f kvs (snd (f k v s)))) = obs (snd (f k v s))"
    using Cons.prems by (intro Cons.IH) auto
  also have "\<dots> = obs s" using Cons.prems kv by auto
  finally show ?case by (simp add: kv rangeMap_Cons del: rangeMap.simps(2))
qed

lemma rangeMap_at:
  assumes "distinct (map fst kvs)" and "map_of kvs k0 = Some v0"
    and "\<And>k v s. (k, v) \<in> set kvs \<Longrightarrow> k \<noteq> k0 \<Longrightarrow> obs (snd (f k v s)) = obs s"
  shows "\<exists>s1. obs s1 = obs s \<and>
           map_of (fst (rangeMap f kvs s)) k0 = Some (fst (f k0 v0 s1)) \<and>
           obs (snd (rangeMap f kvs s)) = obs (snd (f k0 v0 s1))"
  using assms
proof (induction kvs arbitrary: s)
  case Nil
  then show ?case by simp
next
  case (Cons kv kvs)
  obtain k v where kv: "kv = (k, v)" by (cases kv)
  show ?case
  proof (cases "k = k0")
    case True
    then have v: "v = v0" using Cons.prems(2) kv by simp
    have notin: "k0 \<notin> fst ` set kvs" using Cons.prems(1) kv True by auto
    have "obs (snd (rangeMap f kvs (snd (f k0 v0 s)))) = obs (snd (f k0 v0 s))"
    proof (rule rangeMap_obs_all)
      fix k' v' s'
      assume "(k', v') \<in> set kvs"
      then have "k' \<noteq> k0" using notin by force
      then show "obs (snd (f k' v' s')) = obs s'"
        using Cons.prems(3) \<open>(k', v') \<in> set kvs\<close> by auto
    qed
    then show ?thesis
      using True v kv by (intro exI[of _ s]) (simp add: rangeMap_Cons del: rangeMap.simps(2))
  next
    case False
    have step: "obs (snd (f k v s)) = obs s" using Cons.prems(3) kv False by auto
    have "\<exists>s1. obs s1 = obs (snd (f k v s)) \<and>
           map_of (fst (rangeMap f kvs (snd (f k v s)))) k0 = Some (fst (f k0 v0 s1)) \<and>
           obs (snd (rangeMap f kvs (snd (f k v s)))) = obs (snd (f k0 v0 s1))"
      using Cons.prems kv False by (intro Cons.IH) auto
    then show ?thesis
      using False kv step by (auto simp: rangeMap_Cons simp del: rangeMap.simps(2))
  qed
qed

lemma commitSlot_other:
  "(cl, tp, grp, part) \<noteq> K \<Longrightarrow>
     callsFor K (snd (commitSlot reset cl tp grp part off s)) = callsFor K s"
  by (auto simp: commitSlot_def callsFor_def Let_def split: prod.splits option.splits)

lemma commitSlot_at:
  "\<exists>err. fst (commitSlot reset c t g p off s) =
            (if off = - 1 then - 1 else if err = None \<or> err = Some ErrNoNode then - 1 else off) \<and>
         callsFor (c, t, g, p) (snd (commitSlot reset c t g p off s)) =
            callsFor (c, t, g, p) s @ (if off = - 1 then [] else [((c, t, g, p), off, err)])"
  by (cases "reset c t g p off (fst s)")
     (auto simp: commitSlot_def callsFor_def Let_def split: option.splits)

lemma commitPartitions_other:
  "(cl, tp, grp) \<noteq> (c, t, g) \<Longrightarrow>
     callsFor (c, t, g, p) (snd (rangeMap (commitSlot reset cl tp grp) po s))
       = callsFor (c, t, g, p) s"
  by (rule rangeMap_obs_all) (auto simp: commitSlot_other)

lemma commitGroups_other:
  "(cl, tp) \<noteq> (c, t) \<Longrightarrow>
     callsFor (c, t, g, p)
       (snd (rangeMap (\<lambda>grp. rangeMap (commitSlot reset cl tp grp)) gp s))
       = callsFor (c, t, g, p) s"
  by (rule rangeMap_obs_all) (auto simp: commitPartitions_other)

lemma commitTopics_other:
  "cl \<noteq> c \<Longrightarrow>
     callsFor (c, t, g, p)
       (snd (rangeMap (\<lambda>tp. rangeMap (\<lambda>grp. rangeMap (commitSlot reset cl tp grp))) ct s))
       = callsFor (c, t, g, p) s"
  by (rule rangeMap_obs_all) (auto simp: commitGroups_other)

lemma commitPartitions_at:
  assumes "distinct (map fst po)" and "map_of po p = Some off"
  shows "\<exists>err. map_of (fst (rangeMap (commitSlot reset c t g) po s)) p =
            Some (if off = - 1 then - 1 else if err = None \<or> err = Some ErrNoNode then - 1 else off) \<and>
         callsFor (c, t, g, p) (snd (rangeMap (commitSlot reset c t g) po s)) =
            callsFor (c, t, g, p) s @ (if off = - 1 then [] else [((c, t, g, p), off, err)])"
proof -
  obtain s1 where s1: "callsFor (c, t, g, p) s1 = callsFor (c, t, g, p) s"
    and v: "map_of (fst (rangeMap (commitSlot reset c t g) po s)) p
              = Some (fst (commitSlot reset c t g p off s1))"
    and o: "callsFor (c, t, g, p) (snd (rangeMap (commitSlot reset c t g) po s))
              = callsFor (c, t, g, p) (snd (commitSlot reset c t g p off s1))"
    using rangeMap_at [OF assms, of "callsFor (c, t, g, p)" "commitSlot reset c t g" s]
    by (auto simp: commitSlot_other)
  from commitSlot_at [of reset c t g p off s1] s1 v o show ?thesis by auto
qed

lemma rangeMap_lift:
  assumes "distinct (map fst kvs)" and "map_of kvs k0 = Some v0"
    and others: "\<And>k v s. (k, v) \<in> set kvs \<Longrightarrow> k \<noteq> k0 \<Longrightarrow> obs (snd (f k v s)) = obs s"
    and at: "\<And>s. \<exists>r. P r (fst (f k0 v0 s)) \<and> obs (snd (f k0 v0 s)) = obs s @ add r"
  shows "\<exists>r v'. map_of (fst (rangeMap f kvs s)) k0 = Some v' \<and> P r v' \<and>
           obs (snd (rangeMap f kvs s)) = obs s @ add r"
proof -
  obtain s1 where s1: "obs s1 = obs s"
    and v: "map_of (fst (rangeMap f kvs s)) k0 = Some (fst (f k0 v0 s1))"
    and o: "obs (snd (rangeMap f kvs s)) = obs (snd (f k0 v0 s1))"
    using rangeMap_at [OF assms(1,2), of obs f s] others by blast
  from at [of s1] obtain r where "P r (fst (f k0 v0 s1))"
    and "obs (snd (f k0 v0 s1)) = obs s1 @ add r" by blast
  with s1 v o show ?thesis by auto
qed

lemma commitOffsets_at:
  assumes wf: "wf_ackedOffsets ao" and look: "lookup4 ao c t g p = Some off"
  shows "\<exists>err. lookup4 (fst (commitOffsets reset ao z)) c t g p = Some (slotAfter off err) \<and>
           filter (\<lambda>cl. fst cl = (c, t, g, p)) (snd (snd (commitOffsets reset ao z)))
             = callsAdded (c, t, g, p) off err"
proof -
  from look obtain ct gp po where ct: "map_of ao c = Some ct" and gp: "map_of ct t = Some gp"
    and po: "map_of gp g = Some po" and off: "map_of po p = Some off"
    by (auto simp: lookup4_def split: option.splits)
  have d0: "distinct (map fst ao)" using wf by (simp add: wf_ackedOffsets_def wf_level_def)
  have "ct \<in> set (map snd ao)" using ct by (force dest: map_of_SomeD)
  then have d1: "distinct (map fst ct)"
    and w1: "\<forall>gp \<in> set (map snd ct). distinct (map fst gp) \<and>
            (\<forall>po \<in> set (map snd gp). distinct (map fst po))"
    using wf unfolding wf_ackedOffsets_def wf_level_def by blast+
  have "gp \<in> set (map snd ct)" using gp by (force dest: map_of_SomeD)
  then have d2: "distinct (map fst gp)" and w2: "\<forall>po \<in> set (map snd gp). distinct (map fst po)"
    using w1 by blast+
  have "po \<in> set (map snd gp)" using po by (force dest: map_of_SomeD)
  then have d3: "distinct (map fst po)" using w2 by blast
  let ?K = "(c, t, g, p)"
  let ?obs = "callsFor ?K :: 'a \<times> commitCall list \<Rightarrow> commitCall list"
  have l3: "\<exists>err. map_of (fst (rangeMap (commitSlot reset c t g) po s)) p = Some (slotAfter off err) \<and>
              ?obs (snd (rangeMap (commitSlot reset c t g) po s)) = ?obs s @ callsAdded ?K off err" for s
    using commitPartitions_at [OF d3 off, of reset c t g s]
    by (simp add: slotAfter_def callsAdded_def)
  have l2: "\<exists>err v'. map_of (fst (rangeMap (\<lambda>grp. rangeMap (commitSlot reset c t grp)) gp s)) g = Some v' \<and>
              map_of v' p = Some (slotAfter off err) \<and>
              ?obs (snd (rangeMap (\<lambda>grp. rangeMap (commitSlot reset c t grp)) gp s))
                = ?obs s @ callsAdded ?K off err" for s
    by (rule rangeMap_lift [OF d2 po, where P = "\<lambda>err v'. map_of v' p = Some (slotAfter off err)"])
       (simp add: commitPartitions_other, use l3 in blast)
  have l1: "\<exists>err v'. map_of (fst (rangeMap (\<lambda>tp. rangeMap (\<lambda>grp. rangeMap (commitSlot reset c tp grp))) ct s)) t = Some v' \<and>
              (\<exists>v''. map_of v' g = Some v'' \<and> map_of v'' p = Some (slotAfter off err)) \<and>
              ?obs (snd (rangeMap (\<lambda>tp. rangeMap (\<lambda>grp. rangeMap (commitSlot reset c tp grp))) ct s))
                = ?obs s @ callsAdded ?K off err" for s
    by (rule rangeMap_lift [OF d1 gp, where P = "\<lambda>err v'. \<exists>v''. map_of v' g = Some v'' \<and> map_of v'' p = Some (slotAfter off err)"])
       (simp add: commitGroups_other, use l2 in blast)
  have l0: "\<exists>err v'. map_of (fst (rangeMap (\<lambda>cl. rangeMap (\<lambda>tp. rangeMap (\<lambda>grp. rangeMap (commitSlot reset cl tp grp)))) ao s)) c = Some v' \<and>
              (\<exists>v''. map_of v' t = Some v'' \<and> (\<exists>v3. map_of v'' g = Some v3 \<and> map_of v3 p = Some (slotAfter off err))) \<and>
              ?obs (snd (rangeMap (\<lambda>cl. rangeMap (\<lambda>tp. rangeMap (\<lambda>grp. rangeMap (commitSlot reset cl tp grp)))) ao s))
                = ?obs s @ callsAdded ?K off err" for s
    by (rule rangeMap_lift [OF d0 ct, where P = "\<lambda>err v'. \<exists>v''. map_of v' t = Some v'' \<and> (\<exists>v3. map_of v'' g = Some v3 \<and> map_of v3 p = Some (slotAfter off err))"])
       (simp add: commitTopics_other, use l1 in blast)
  from l0 [of "(z, [])"] show ?thesis
    by (auto simp: commitOffsets_def lookup4_def callsFor_def split: prod.splits)
qed

subsection \<open>The calls of the flush are the calls of the store\<close>

lemma rangeMap_fold:
  assumes "\<And>k v s. snd (f k v s) = fold h (g k v) s"
  shows "snd (rangeMap f kvs s) = fold h (concat (map (\<lambda>(k, v). g k v) kvs)) s"
proof (induction kvs arbitrary: s)
  case Nil
  then show ?case by simp
next
  case (Cons kv kvs)
  obtain k v where kv: "kv = (k, v)" by (cases kv)
  show ?case
    by (simp add: kv rangeMap_Cons Cons.IH assms del: rangeMap.simps(2))
qed

lemma commitSlot_fold:
  "snd (commitSlot reset c t g p off s)
     = fold (storeCall reset) (filter (\<lambda>x. snd x \<noteq> - 1) [((c, t, g, p), off)]) s"
  by (cases "reset c t g p off (fst s)")
     (auto simp: commitSlot_def storeCall_def Let_def split: option.splits)

lemma commitPartitions_fold:
  "snd (rangeMap (commitSlot reset c t g) po s)
     = fold (storeCall reset) (filter (\<lambda>x. snd x \<noteq> - 1) (slotsOfGroup c t g po)) s"
proof -
  have "snd (rangeMap (commitSlot reset c t g) po s)
      = fold (storeCall reset)
          (concat (map (\<lambda>(p, off). filter (\<lambda>x. snd x \<noteq> - 1) [((c, t, g, p), off)]) po)) s"
    by (rule rangeMap_fold) (rule commitSlot_fold)
  moreover have "concat (map (\<lambda>(p, off). filter (\<lambda>x. snd x \<noteq> - 1) [((c, t, g, p), off)]) po)
      = filter (\<lambda>x. snd x \<noteq> - 1) (slotsOfGroup c t g po)"
    by (induction po) (auto simp: slotsOfGroup_def)
  ultimately show ?thesis by (simp only:)
qed

lemma concat_map_filter:
  "concat (map (\<lambda>(k, v). filter P (h k v)) kvs) = filter P (concat (map (\<lambda>(k, v). h k v) kvs))"
  by (induction kvs) auto

lemma commitGroups_fold:
  "snd (rangeMap (\<lambda>grp. rangeMap (commitSlot reset c t grp)) gp s)
     = fold (storeCall reset) (filter (\<lambda>x. snd x \<noteq> - 1) (slotsOfTopic c t gp)) s"
proof -
  have "snd (rangeMap (\<lambda>grp. rangeMap (commitSlot reset c t grp)) gp s)
      = fold (storeCall reset) (concat (map (\<lambda>(k, v). filter (\<lambda>x. snd x \<noteq> - 1) (slotsOfGroup c t k v)) gp)) s"
    by (rule rangeMap_fold) (rule commitPartitions_fold)
  then show ?thesis by (simp only: slotsOfTopic_def concat_map_filter)
qed

lemma commitTopics_fold:
  "snd (rangeMap (\<lambda>tp. rangeMap (\<lambda>grp. rangeMap (commitSlot reset c tp grp))) ct s)
     = fold (storeCall reset) (filter (\<lambda>x. snd x \<noteq> - 1) (slotsOfCluster c ct)) s"
proof -
  have "snd (rangeMap (\<lambda>tp. rangeMap (\<lambda>grp. rangeMap (commitSlot reset c tp grp))) ct s)
      = fold (storeCall reset) (concat (map (\<lambda>(k, v). filter (\<lambda>x. snd x \<noteq> - 1) (slotsOfTopic c k v)) ct)) s"
    by (rule rangeMap_fold) (rule commitGroups_fold)
  then show ?thesis by (simp only: slotsOfCluster_def concat_map_filter)
qed

lemma commitClusters_fold:
  "snd (rangeMap (\<lambda>cl. rangeMap (\<lambda>tp. rangeMap (\<lambda>grp. rangeMap (commitSlot reset cl tp grp)))) ao s)
     = fold (storeCall reset) (filter (\<lambda>x. snd x \<noteq> - 1) (slots ao)) s"
proof -
  have "snd (rangeMap (\<lambda>cl. rangeMap (\<lambda>tp. rangeMap (\<lambda>grp. rangeMap (commitSlot reset cl tp grp)))) ao s)
      = fold (storeCall reset) (concat (map (\<lambda>(k, v). filter (\<lambda>x. snd x \<noteq> - 1) (slotsOfCluster k v)) ao)) s"
    by (rule rangeMap_fold) (rule commitTopics_fold)
  then show ?thesis by (simp only: slots_def concat_map_filter)
qed

lemma commitOffsets_callStore:
  "commitOffsets reset ao z = (ao', z', calls) \<Longrightarrow>
     callStore reset (filter (\<lambda>x. snd x \<noteq> - 1) (slots ao)) (z, []) = (z', calls)"
  using commitClusters_fold [of reset ao "(z, [])"]
  by (auto simp: commitOffsets_def callStore_def split: prod.splits)

lemma callStore_snoc:
  "callStore reset (xs @ [x]) s = storeCall reset x (callStore reset xs s)"
  by (simp add: callStore_def)

lemma callStore_entry:
  assumes "((c, t, g, p), off, err) \<in> set (snd (callStore reset xs s))"
  shows "((c, t, g, p), off, err) \<in> set (snd s) \<or>
         (\<exists>pre post zj. xs = pre @ ((c, t, g, p), off) # post \<and>
            reset c t g p off (fst (callStore reset pre s)) = (err, zj))"
  using assms
proof (induction xs rule: rev_induct)
  case Nil
  then show ?case by (simp add: callStore_def)
next
  case (snoc x xs)
  obtain c' t' g' p' off' where x: "x = ((c', t', g', p'), off')" by (cases x) auto
  obtain e z1 where r: "reset c' t' g' p' off' (fst (callStore reset xs s)) = (e, z1)"
    by (cases "reset c' t' g' p' off' (fst (callStore reset xs s))")
  have tr: "snd (callStore reset (xs @ [x]) s)
      = snd (callStore reset xs s) @ [((c', t', g', p'), off', e)]"
    by (simp add: callStore_snoc storeCall_def x r)
  from snoc.prems tr
  consider (old) "((c, t, g, p), off, err) \<in> set (snd (callStore reset xs s))"
    | (new) "((c, t, g, p), off, err) = ((c', t', g', p'), off', e)"
    by auto
  then show ?case
  proof cases
    case old
    from snoc.IH [OF old] show ?thesis
    proof
      assume "((c, t, g, p), off, err) \<in> set (snd s)"
      then show ?thesis by simp
    next
      assume "\<exists>pre post zj. xs = pre @ ((c, t, g, p), off) # post \<and>
            reset c t g p off (fst (callStore reset pre s)) = (err, zj)"
      then obtain pre post zj where "xs = pre @ ((c, t, g, p), off) # post"
        and "reset c t g p off (fst (callStore reset pre s)) = (err, zj)" by blast
      then have "xs @ [x] = pre @ ((c, t, g, p), off) # (post @ [x]) \<and>
          reset c t g p off (fst (callStore reset pre s)) = (err, zj)" by simp
      then show ?thesis by blast
    qed
  next
    case new
    with x r have "xs @ [x] = xs @ ((c, t, g, p), off) # [] \<and>
        reset c t g p off (fst (callStore reset xs s)) = (err, z1)" by simp
    then show ?thesis by blast
  qed
qed

subsection \<open>The flush of the acked offsets\<close>

text \<open>
  C3.  One run of \<^verbatim>\<open>commitOffsets\<close>, for any state of the mapping and any
  coordination store.  The calls the flush makes are the calls of the store's offset-set
  operation on the slots that do not hold the sentinel \<open>- 1\<close>, one call per slot in
  the order of the loops, each in the state the store was left in by the call before; the
  store ends in the state these calls leave it in.  A slot that holds \<open>- 1\<close> is
  skipped: no call is made for it and it stays \<open>- 1\<close>.  For a slot that holds another
  offset there is exactly one call, with that offset; \<open>err\<close> is what the store returned
  to it, and afterwards the slot is \<open>- 1\<close> when \<open>err\<close> is \<^verbatim>\<open>nil\<close> or
  \<^verbatim>\<open>zk.ErrNoNode\<close>, and keeps its offset for any other error.
\<close>

theorem C3_commitOffsets_flush:
  assumes "wf_ackedOffsets ao"
    and "lookup4 ao c t g p = Some off"
    and "commitOffsets reset ao z = (ao', z', calls)"
  shows "callStore reset (filter (\<lambda>x. snd x \<noteq> - 1) (slots ao)) (z, []) = (z', calls) \<and>
         (off = - 1 \<longrightarrow>
            filter (\<lambda>cl. fst cl = (c, t, g, p)) calls = [] \<and> lookup4 ao' c t g p = Some (- 1)) \<and>
         (off \<noteq> - 1 \<longrightarrow>
            (\<exists>err pre post zj.
               filter (\<lambda>x. snd x \<noteq> - 1) (slots ao) = pre @ ((c, t, g, p), off) # post \<and>
               reset c t g p off (fst (callStore reset pre (z, []))) = (err, zj) \<and>
               filter (\<lambda>cl. fst cl = (c, t, g, p)) calls = [((c, t, g, p), off, err)] \<and>
               lookup4 ao' c t g p =
                 Some (if err = None \<or> err = Some ErrNoNode then - 1 else off)))"
proof -
  have store: "callStore reset (filter (\<lambda>x. snd x \<noteq> - 1) (slots ao)) (z, []) = (z', calls)"
    using assms(3) by (rule commitOffsets_callStore)
  from commitOffsets_at [OF assms(1,2), of reset z] assms(3)
  obtain err where l: "lookup4 ao' c t g p = Some (slotAfter off err)"
    and f: "filter (\<lambda>cl. fst cl = (c, t, g, p)) calls = callsAdded (c, t, g, p) off err"
    by auto
  show ?thesis
  proof (cases "off = - 1")
    case True
    with l f store show ?thesis by (simp add: slotAfter_def callsAdded_def)
  next
    case False
    with f have f': "filter (\<lambda>cl. fst cl = (c, t, g, p)) calls = [((c, t, g, p), off, err)]"
      by (simp add: callsAdded_def)
    then have "((c, t, g, p), off, err) \<in> set (filter (\<lambda>cl. fst cl = (c, t, g, p)) calls)"
      by simp
    then have "((c, t, g, p), off, err) \<in> set calls" by simp
    with store have "((c, t, g, p), off, err)
        \<in> set (snd (callStore reset (filter (\<lambda>x. snd x \<noteq> - 1) (slots ao)) (z, [])))"
      by simp
    from callStore_entry [OF this]
    obtain pre post zj where
      "filter (\<lambda>x. snd x \<noteq> - 1) (slots ao) = pre @ ((c, t, g, p), off) # post"
      and "reset c t g p off (fst (callStore reset pre (z, []))) = (err, zj)"
      by auto
    moreover from False l
    have "lookup4 ao' c t g p = Some (if err = None \<or> err = Some ErrNoNode then - 1 else off)"
      by (simp add: slotAfter_def)
    ultimately have "\<exists>err pre post zj.
               filter (\<lambda>x. snd x \<noteq> - 1) (slots ao) = pre @ ((c, t, g, p), off) # post \<and>
               reset c t g p off (fst (callStore reset pre (z, []))) = (err, zj) \<and>
               filter (\<lambda>cl. fst cl = (c, t, g, p)) calls = [((c, t, g, p), off, err)] \<and>
               lookup4 ao' c t g p =
                 Some (if err = None \<or> err = Some ErrNoNode then - 1 else off)"
      using f' by blast
    with False store show ?thesis by blast
  qed
qed

text \<open>
  A store that counts its calls and answers \<^verbatim>\<open>zk.ErrNoNode\<close> for partition 3 (scenario
  S4 of the specification, offset 42), another error for partition 5 and \<^verbatim>\<open>nil\<close>
  otherwise; partition 4 holds the sentinel.  Three calls are made; the slots of
  partitions 3 and 6 are \<open>- 1\<close> afterwards and partition 5 keeps its offset.
\<close>

theorem C3_commitOffsets_flush_witness:
  "wf_ackedOffsets [(''c'', [(''t'', [(''g'', [(3, 42), (4, - 1), (5, 7), (6, 8)])])])] \<and>
   lookup4 [(''c'', [(''t'', [(''g'', [(3, 42), (4, - 1), (5, 7), (6, 8)])])])] ''c'' ''t'' ''g'' 3 = Some 42 \<and>
   lookup4 [(''c'', [(''t'', [(''g'', [(3, 42), (4, - 1), (5, 7), (6, 8)])])])] ''c'' ''t'' ''g'' 4 = Some (- 1) \<and>
   lookup4 [(''c'', [(''t'', [(''g'', [(3, 42), (4, - 1), (5, 7), (6, 8)])])])] ''c'' ''t'' ''g'' 5 = Some 7 \<and>
   commitOffsets (\<lambda>cl tp grp part off z. (if part = 3 then Some ErrNoNode else if part = 5 then Some ErrOther else None, z + 1))
       [(''c'', [(''t'', [(''g'', [(3, 42), (4, - 1), (5, 7), (6, 8)])])])] (0::nat)
     = ([(''c'', [(''t'', [(''g'', [(3, - 1), (4, - 1), (5, 7), (6, - 1)])])])], 3,
        [((''c'', ''t'', ''g'', 3), 42, Some ErrNoNode), ((''c'', ''t'', ''g'', 5), 7, Some ErrOther),
         ((''c'', ''t'', ''g'', 6), 8, None)]) \<and>
   callStore (\<lambda>cl tp grp part off z. (if part = 3 then Some ErrNoNode else if part = 5 then Some ErrOther else None, z + 1))
       (filter (\<lambda>x. snd x \<noteq> - 1) (slots [(''c'', [(''t'', [(''g'', [(3, 42), (4, - 1), (5, 7), (6, 8)])])])])) (0::nat, [])
     = (3,
        [((''c'', ''t'', ''g'', 3), 42, Some ErrNoNode), ((''c'', ''t'', ''g'', 5), 7, Some ErrOther),
         ((''c'', ''t'', ''g'', 6), 8, None)]) \<and>
   lookup4 [(''c'', [(''t'', [(''g'', [(3, - 1), (4, - 1), (5, 7), (6, - 1)])])])] ''c'' ''t'' ''g'' 3 = Some (- 1) \<and>
   lookup4 [(''c'', [(''t'', [(''g'', [(3, - 1), (4, - 1), (5, 7), (6, - 1)])])])] ''c'' ''t'' ''g'' 4 = Some (- 1) \<and>
   lookup4 [(''c'', [(''t'', [(''g'', [(3, - 1), (4, - 1), (5, 7), (6, - 1)])])])] ''c'' ''t'' ''g'' 5 = Some 7"
proof -
  have w: "wf_ackedOffsets [(''c'', [(''t'', [(''g'', [(3, 42), (4, - 1), (5, 7), (6, 8)])])])]"
    by (simp add: wf_ackedOffsets_def wf_level_def)
  have l3: "lookup4 [(''c'', [(''t'', [(''g'', [(3, 42), (4, - 1), (5, 7), (6, 8)])])])] ''c'' ''t'' ''g'' 3 = Some 42"
    by (simp add: lookup4_def)
  have l4: "lookup4 [(''c'', [(''t'', [(''g'', [(3, 42), (4, - 1), (5, 7), (6, 8)])])])] ''c'' ''t'' ''g'' 4 = Some (- 1)"
    by (simp add: lookup4_def)
  have l5: "lookup4 [(''c'', [(''t'', [(''g'', [(3, 42), (4, - 1), (5, 7), (6, 8)])])])] ''c'' ''t'' ''g'' 5 = Some 7"
    by (simp add: lookup4_def)
  have c: "commitOffsets (\<lambda>cl tp grp part off z. (if part = 3 then Some ErrNoNode else if part = 5 then Some ErrOther else None, z + 1))
       [(''c'', [(''t'', [(''g'', [(3, 42), (4, - 1), (5, 7), (6, 8)])])])] (0::nat)
     = ([(''c'', [(''t'', [(''g'', [(3, - 1), (4, - 1), (5, 7), (6, - 1)])])])], 3,
        [((''c'', ''t'', ''g'', 3), 42, Some ErrNoNode), ((''c'', ''t'', ''g'', 5), 7, Some ErrOther),
         ((''c'', ''t'', ''g'', 6), 8, None)])"
    by (simp add: commitOffsets_def commitSlot_def)
  from C3_commitOffsets_flush [OF w l4 c]
  have s: "callStore (\<lambda>cl tp grp part off z. (if part = 3 then Some ErrNoNode else if part = 5 then Some ErrOther else None, z + 1))
       (filter (\<lambda>x. snd x \<noteq> - 1) (slots [(''c'', [(''t'', [(''g'', [(3, 42), (4, - 1), (5, 7), (6, 8)])])])])) (0::nat, [])
     = (3,
        [((''c'', ''t'', ''g'', 3), 42, Some ErrNoNode), ((''c'', ''t'', ''g'', 5), 7, Some ErrOther),
         ((''c'', ''t'', ''g'', 6), 8, None)])"
    and r4: "lookup4 [(''c'', [(''t'', [(''g'', [(3, - 1), (4, - 1), (5, 7), (6, - 1)])])])] ''c'' ''t'' ''g'' 4 = Some (- 1)"
    by simp_all
  have "(42::int) \<noteq> - 1" by simp
  with C3_commitOffsets_flush [OF w l3 c]
  obtain err3 where
    f3: "filter (\<lambda>cl. fst cl = (''c'', ''t'', ''g'', 3::int))
          [((''c'', ''t'', ''g'', 3::int), 42::int, Some ErrNoNode), ((''c'', ''t'', ''g'', 5), 7, Some ErrOther),
         ((''c'', ''t'', ''g'', 6), 8, None)]
         = [((''c'', ''t'', ''g'', 3::int), 42::int, err3)]"
    and a3: "lookup4 [(''c'', [(''t'', [(''g'', [(3, - 1), (4, - 1), (5, 7), (6, - 1)])])])] ''c'' ''t'' ''g'' 3
         = Some (if err3 = None \<or> err3 = Some ErrNoNode then - 1 else 42)"
    by blast
  from f3 have "err3 = Some ErrNoNode" by simp
  with a3 have r3: "lookup4 [(''c'', [(''t'', [(''g'', [(3, - 1), (4, - 1), (5, 7), (6, - 1)])])])] ''c'' ''t'' ''g'' 3 = Some (- 1)"
    by simp
  have "(7::int) \<noteq> - 1" by simp
  with C3_commitOffsets_flush [OF w l5 c]
  obtain err5 where
    f5: "filter (\<lambda>cl. fst cl = (''c'', ''t'', ''g'', 5::int))
          [((''c'', ''t'', ''g'', 3::int), 42::int, Some ErrNoNode), ((''c'', ''t'', ''g'', 5), 7, Some ErrOther),
         ((''c'', ''t'', ''g'', 6), 8, None)]
         = [((''c'', ''t'', ''g'', 5::int), 7::int, err5)]"
    and a5: "lookup4 [(''c'', [(''t'', [(''g'', [(3, - 1), (4, - 1), (5, 7), (6, - 1)])])])] ''c'' ''t'' ''g'' 5
         = Some (if err5 = None \<or> err5 = Some ErrNoNode then - 1 else 7)"
    by blast
  from f5 have "err5 = Some ErrOther" by simp
  with a5 have r5: "lookup4 [(''c'', [(''t'', [(''g'', [(3, - 1), (4, - 1), (5, 7), (6, - 1)])])])] ''c'' ''t'' ''g'' 5 = Some 7"
    by simp
  from w l3 l4 l5 c s r3 r4 r5 show ?thesis by blast
qed

section \<open>The job handler\<close>

lemma execDelete_zero:
  assumes "fst (execDelete ft job_id w) = Inr 0"
  shows "execDelete ft job_id w = (Inr 0, w)"
proof -
  from assms have d: "\<not> deleteErr ft"
    by (auto simp: execDelete_def split: if_splits)
  have n: "due w job_id = None"
  proof (rule ccontr)
    assume "due w job_id \<noteq> None"
    with assms d show False by (simp add: execDelete_def)
  qed
  from n have "(due w)(job_id := None) = due w" by (simp add: fun_upd_idem)
  with d n show ?thesis by (simp add: execDelete_def)
qed

lemma execDelete_pos:
  assumes "fst (execDelete ft job_id w) = Inr n" and "n \<noteq> 0"
  shows "execDelete ft job_id w = (Inr 1, w\<lparr>due := (due w)(job_id := None)\<rparr>)"
  using assms by (auto simp: execDelete_def split: if_splits)

text \<open>
  C5.  When the \<^verbatim>\<open>DELETE\<close> of the item's \<^verbatim>\<open>job_id\<close> reports no affected row,
  the handler goes on to the next item: the \<^verbatim>\<open>DELETE\<close> is the only thing it did (no
  publish, no hinted-handoff append, no reinject, no history insert, no log line) and the
  stores are as they were.
\<close>

theorem C5_lost_race_skips:
  assumes "fst (execDelete ft (JobId item) w) = Inr 0"
  shows "handleDueJob this ft now item w = (w, [ExecDelete (JobId item)])"
  by (simp add: handleDueJob_def execDelete_zero [OF assms])

theorem C5_lost_race_skips_witness:
  "fst (execDelete \<lparr>deleteErr = False, pubErr = False, hhErr = False, reinjectErr = False, archiveErr = False\<rparr>
         (JobId \<lparr>JobId = 7, Payload = ''x'', Ctime = 1, DueTime = 2\<rparr>)
         \<lparr>due = Map.empty, history = [], published = [], handoff = []\<rparr>) = Inr 0 \<and>
   handleDueJob \<lparr>parentId = ''p'', ex_cluster = ''c'', ex_topic = ''t''\<rparr>
       \<lparr>deleteErr = False, pubErr = False, hhErr = False, reinjectErr = False, archiveErr = False\<rparr>
       5 \<lparr>JobId = 7, Payload = ''x'', Ctime = 1, DueTime = 2\<rparr>
       \<lparr>due = Map.empty, history = [], published = [], handoff = []\<rparr>
     = (\<lparr>due = Map.empty, history = [], published = [], handoff = []\<rparr>, [ExecDelete 7])"
proof -
  have h: "fst (execDelete \<lparr>deleteErr = False, pubErr = False, hhErr = False, reinjectErr = False, archiveErr = False\<rparr>
         (JobId \<lparr>JobId = 7, Payload = ''x'', Ctime = 1, DueTime = 2\<rparr>)
         \<lparr>due = Map.empty, history = [], published = [], handoff = []\<rparr>) = Inr 0"
    by (simp add: execDelete_def)
  from C5_lost_race_skips [OF h, of "\<lparr>parentId = ''p'', ex_cluster = ''c'', ex_topic = ''t''\<rparr>" 5] h
  show ?thesis by simp
qed

text \<open>
  C6.  When the \<^verbatim>\<open>DELETE\<close> removed the row and both the publish and the
  hinted-handoff append fail, the handler issues the reinject \<^verbatim>\<open>INSERT\<close> with the
  item's own \<^verbatim>\<open>job_id\<close>, payload, \<^verbatim>\<open>ctime\<close> and \<^verbatim>\<open>due_time\<close> and no history
  insert; the history table is unchanged, and when the \<^verbatim>\<open>INSERT\<close> succeeds the due
  table holds the job again with these values.
\<close>

theorem C6_reinject:
  assumes "fst (execDelete ft (JobId item) w) = Inr n" and "n \<noteq> 0"
    and "pubErr ft" and "hhErr ft"
    and "handleDueJob this ft now item w = (w', calls)"
  shows "calls = [ExecDelete (JobId item), LogDebug,
                  SyncPub (ex_cluster this) (ex_topic this) (Payload item),
                  HHAppend (ex_cluster this) (ex_topic this) (Payload item),
                  LogError,
                  ExecReinject (JobId item) (Payload item) (Ctime item) (DueTime item)] \<and>
         history w' = history w \<and> published w' = published w \<and> handoff w' = handoff w \<and>
         (\<not> reinjectErr ft \<longrightarrow> due w' = (due w)(JobId item \<mapsto> (Payload item, Ctime item, DueTime item)))"
  using assms(3-5)
  by (auto simp: handleDueJob_def execDelete_pos [OF assms(1,2)] syncPub_def hhAppend_def
      execReinject_def Let_def)

text \<open>
  Scenario S5 of the specification, with \<^verbatim>\<open>job_id\<close> 7.
\<close>

theorem C6_reinject_witness:
  "fst (execDelete \<lparr>deleteErr = False, pubErr = True, hhErr = True, reinjectErr = False, archiveErr = False\<rparr> 7
        \<lparr>due = [7 \<mapsto> (''x'', 1, 2)], history = [], published = [], handoff = []\<rparr>) = Inr 1 \<and>
   handleDueJob \<lparr>parentId = ''p'', ex_cluster = ''c'', ex_topic = ''t''\<rparr>
       \<lparr>deleteErr = False, pubErr = True, hhErr = True, reinjectErr = False, archiveErr = False\<rparr>
       5 \<lparr>JobId = 7, Payload = ''x'', Ctime = 1, DueTime = 2\<rparr>
       \<lparr>due = [7 \<mapsto> (''x'', 1, 2)], history = [], published = [], handoff = []\<rparr>
     = (\<lparr>due = [7 \<mapsto> (''x'', 1, 2)], history = [], published = [], handoff = []\<rparr>,
        [ExecDelete 7, LogDebug, SyncPub ''c'' ''t'' ''x'', HHAppend ''c'' ''t'' ''x'', LogError,
         ExecReinject 7 ''x'' 1 2]) \<and>
   history \<lparr>due = [7 \<mapsto> (''x'', 1, 2)], history = [], published = [], handoff = []\<rparr> = []"
proof -
  have d: "fst (execDelete \<lparr>deleteErr = False, pubErr = True, hhErr = True, reinjectErr = False, archiveErr = False\<rparr>
        (JobId \<lparr>JobId = 7, Payload = ''x'', Ctime = 1, DueTime = 2\<rparr>)
        \<lparr>due = [7 \<mapsto> (''x'', 1, 2)], history = [], published = [], handoff = []\<rparr>) = Inr 1"
    by (simp add: execDelete_def)
  have h: "handleDueJob \<lparr>parentId = ''p'', ex_cluster = ''c'', ex_topic = ''t''\<rparr>
       \<lparr>deleteErr = False, pubErr = True, hhErr = True, reinjectErr = False, archiveErr = False\<rparr>
       5 \<lparr>JobId = 7, Payload = ''x'', Ctime = 1, DueTime = 2\<rparr>
       \<lparr>due = [7 \<mapsto> (''x'', 1, 2)], history = [], published = [], handoff = []\<rparr>
     = (\<lparr>due = [7 \<mapsto> (''x'', 1, 2)], history = [], published = [], handoff = []\<rparr>,
        [ExecDelete 7, LogDebug, SyncPub ''c'' ''t'' ''x'', HHAppend ''c'' ''t'' ''x'', LogError,
         ExecReinject 7 ''x'' 1 2])"
    by (simp add: handleDueJob_def execDelete_def syncPub_def hhAppend_def execReinject_def)
  from C6_reinject [OF d _ _ _ h] d h show ?thesis by simp
qed

text \<open>
  C2, as the claim states it, fails: when the publish succeeds and the history insert
  fails, the handler logs the error and goes on; the job is then neither in the history
  table nor in the due table.
\<close>

theorem C2_history_insert_fails_counterexample:
  "fst (execDelete \<lparr>deleteErr = False, pubErr = False, hhErr = False, reinjectErr = False, archiveErr = True\<rparr> 7
        \<lparr>due = [7 \<mapsto> (''x'', 1, 2)], history = [], published = [], handoff = []\<rparr>) = Inr 1 \<and>
   \<not> (hasHistory (fst (handleDueJob \<lparr>parentId = ''p'', ex_cluster = ''c'', ex_topic = ''t''\<rparr>
          \<lparr>deleteErr = False, pubErr = False, hhErr = False, reinjectErr = False, archiveErr = True\<rparr>
          5 \<lparr>JobId = 7, Payload = ''x'', Ctime = 1, DueTime = 2\<rparr>
          \<lparr>due = [7 \<mapsto> (''x'', 1, 2)], history = [], published = [], handoff = []\<rparr>)) 7 \<or>
      due (fst (handleDueJob \<lparr>parentId = ''p'', ex_cluster = ''c'', ex_topic = ''t''\<rparr>
          \<lparr>deleteErr = False, pubErr = False, hhErr = False, reinjectErr = False, archiveErr = True\<rparr>
          5 \<lparr>JobId = 7, Payload = ''x'', Ctime = 1, DueTime = 2\<rparr>
          \<lparr>due = [7 \<mapsto> (''x'', 1, 2)], history = [], published = [], handoff = []\<rparr>)) 7 \<noteq> None)"
  by (simp add: handleDueJob_def execDelete_def syncPub_def hhAppend_def
      execReinject_def execArchive_def hasHistory_def)

text \<open>
  C2, amended.  For a job whose \<^verbatim>\<open>DELETE\<close> removed the row: when the job was
  handed over (the publish or the hinted-handoff append succeeded) and the history insert
  succeeds, or when it was not handed over and the reinject insert succeeds, then
  afterwards the history table has a row of that \<^verbatim>\<open>job_id\<close> or the due table has one.
\<close>

theorem C2_history_or_due:
  assumes "fst (execDelete ft (JobId item) w) = Inr n" and "n \<noteq> 0"
    and "pubErr ft \<and> hhErr ft \<longrightarrow> \<not> reinjectErr ft"
    and "\<not> (pubErr ft \<and> hhErr ft) \<longrightarrow> \<not> archiveErr ft"
  shows "hasHistory (fst (handleDueJob this ft now item w)) (JobId item) \<or>
         due (fst (handleDueJob this ft now item w)) (JobId item) \<noteq> None"
  using assms(3,4)
  by (auto simp: handleDueJob_def execDelete_pos [OF assms(1,2)] syncPub_def hhAppend_def
      execReinject_def execArchive_def hasHistory_def Let_def)

theorem C2_history_or_due_witness:
  "fst (execDelete \<lparr>deleteErr = False, pubErr = True, hhErr = True, reinjectErr = False, archiveErr = False\<rparr>
        (JobId \<lparr>JobId = 7, Payload = ''x'', Ctime = 1, DueTime = 2\<rparr>)
        \<lparr>due = [7 \<mapsto> (''x'', 1, 2)], history = [], published = [], handoff = []\<rparr>) = Inr 1 \<and>
   (hasHistory (fst (handleDueJob \<lparr>parentId = ''p'', ex_cluster = ''c'', ex_topic = ''t''\<rparr>
          \<lparr>deleteErr = False, pubErr = True, hhErr = True, reinjectErr = False, archiveErr = False\<rparr>
          5 \<lparr>JobId = 7, Payload = ''x'', Ctime = 1, DueTime = 2\<rparr>
          \<lparr>due = [7 \<mapsto> (''x'', 1, 2)], history = [], published = [], handoff = []\<rparr>)) 7 \<or>
    due (fst (handleDueJob \<lparr>parentId = ''p'', ex_cluster = ''c'', ex_topic = ''t''\<rparr>
          \<lparr>deleteErr = False, pubErr = True, hhErr = True, reinjectErr = False, archiveErr = False\<rparr>
          5 \<lparr>JobId = 7, Payload = ''x'', Ctime = 1, DueTime = 2\<rparr>
          \<lparr>due = [7 \<mapsto> (''x'', 1, 2)], history = [], published = [], handoff = []\<rparr>)) 7 \<noteq> None) \<and>
   fst (execDelete \<lparr>deleteErr = False, pubErr = True, hhErr = False, reinjectErr = True, archiveErr = False\<rparr>
        (JobId \<lparr>JobId = 7, Payload = ''x'', Ctime = 1, DueTime = 2\<rparr>)
        \<lparr>due = [7 \<mapsto> (''x'', 1, 2)], history = [], published = [], handoff = []\<rparr>) = Inr 1 \<and>
   (hasHistory (fst (handleDueJob \<lparr>parentId = ''p'', ex_cluster = ''c'', ex_topic = ''t''\<rparr>
          \<lparr>deleteErr = False, pubErr = True, hhErr = False, reinjectErr = True, archiveErr = False\<rparr>
          5 \<lparr>JobId = 7, Payload = ''x'', Ctime = 1, DueTime = 2\<rparr>
          \<lparr>due = [7 \<mapsto> (''x'', 1, 2)], history = [], published = [], handoff = []\<rparr>)) 7 \<or>
    due (fst (handleDueJob \<lparr>parentId = ''p'', ex_cluster = ''c'', ex_topic = ''t''\<rparr>
          \<lparr>deleteErr = False, pubErr = True, hhErr = False, reinjectErr = True, archiveErr = False\<rparr>
          5 \<lparr>JobId = 7, Payload = ''x'', Ctime = 1, DueTime = 2\<rparr>
          \<lparr>due = [7 \<mapsto> (''x'', 1, 2)], history = [], published = [], handoff = []\<rparr>)) 7 \<noteq> None)"
proof -
  have d1: "fst (execDelete \<lparr>deleteErr = False, pubErr = True, hhErr = True, reinjectErr = False, archiveErr = False\<rparr>
        (JobId \<lparr>JobId = 7, Payload = ''x'', Ctime = 1, DueTime = 2\<rparr>)
        \<lparr>due = [7 \<mapsto> (''x'', 1, 2)], history = [], published = [], handoff = []\<rparr>) = Inr 1"
    by (simp add: execDelete_def)
  have d2: "fst (execDelete \<lparr>deleteErr = False, pubErr = True, hhErr = False, reinjectErr = True, archiveErr = False\<rparr>
        (JobId \<lparr>JobId = 7, Payload = ''x'', Ctime = 1, DueTime = 2\<rparr>)
        \<lparr>due = [7 \<mapsto> (''x'', 1, 2)], history = [], published = [], handoff = []\<rparr>) = Inr 1"
    by (simp add: execDelete_def)
  from C2_history_or_due [OF d1, of "\<lparr>parentId = ''p'', ex_cluster = ''c'', ex_topic = ''t''\<rparr>" 5]
  have r1: "(hasHistory (fst (handleDueJob \<lparr>parentId = ''p'', ex_cluster = ''c'', ex_topic = ''t''\<rparr>
          \<lparr>deleteErr = False, pubErr = True, hhErr = True, reinjectErr = False, archiveErr = False\<rparr>
          5 \<lparr>JobId = 7, Payload = ''x'', Ctime = 1, DueTime = 2\<rparr>
          \<lparr>due = [7 \<mapsto> (''x'', 1, 2)], history = [], published = [], handoff = []\<rparr>)) 7 \<or>
    due (fst (handleDueJob \<lparr>parentId = ''p'', ex_cluster = ''c'', ex_topic = ''t''\<rparr>
          \<lparr>deleteErr = False, pubErr = True, hhErr = True, reinjectErr = False, archiveErr = False\<rparr>
          5 \<lparr>JobId = 7, Payload = ''x'', Ctime = 1, DueTime = 2\<rparr>
          \<lparr>due = [7 \<mapsto> (''x'', 1, 2)], history = [], published = [], handoff = []\<rparr>)) 7 \<noteq> None)"
    by simp
  from C2_history_or_due [OF d2, of "\<lparr>parentId = ''p'', ex_cluster = ''c'', ex_topic = ''t''\<rparr>" 5]
  have r2: "(hasHistory (fst (handleDueJob \<lparr>parentId = ''p'', ex_cluster = ''c'', ex_topic = ''t''\<rparr>
          \<lparr>deleteErr = False, pubErr = True, hhErr = False, reinjectErr = True, archiveErr = False\<rparr>
          5 \<lparr>JobId = 7, Payload = ''x'', Ctime = 1, DueTime = 2\<rparr>
          \<lparr>due = [7 \<mapsto> (''x'', 1, 2)], history = [], published = [], handoff = []\<rparr>)) 7 \<or>
    due (fst (handleDueJob \<lparr>parentId = ''p'', ex_cluster = ''c'', ex_topic = ''t''\<rparr>
          \<lparr>deleteErr = False, pubErr = True, hhErr = False, reinjectErr = True, archiveErr = False\<rparr>
          5 \<lparr>JobId = 7, Payload = ''x'', Ctime = 1, DueTime = 2\<rparr>
          \<lparr>due = [7 \<mapsto> (''x'', 1, 2)], history = [], published = [], handoff = []\<rparr>)) 7 \<noteq> None)"
    by simp
  from d1 r1 d2 r2 show ?thesis by blast
qed

subsection \<open>Idle connections\<close>

lemma connStateHandler_shutdown:
  assumes "shutdownBegun s" and "connStateHandler dm ra s c cs = Inr s'"
  shows "shutdownBegun s' \<and> idleConns s' \<subseteq> idleConns s"
  using assms
  by (cases cs)
     (auto simp: connStateHandler_def shutdownBegun_def withMetrics_def Let_def
           split: option.splits if_splits)

lemma connStates_shutdown:
  assumes "shutdownBegun s" and "connStates dm ra s evs = Inr s'"
  shows "shutdownBegun s' \<and> idleConns s' \<subseteq> idleConns s"
  using assms
proof (induction evs arbitrary: s)
  case Nil
  then show ?case by simp
next
  case (Cons ev evs)
  obtain c cs where ev: "ev = (c, cs)" by (cases ev)
  from Cons.prems(2) ev obtain s1 where h: "connStateHandler dm ra s c cs = Inr s1"
    and r: "connStates dm ra s1 evs = Inr s'"
    by (auto split: sum.splits)
  from connStateHandler_shutdown [OF Cons.prems(1) h]
  have b: "shutdownBegun s1" and i: "idleConns s1 \<subseteq> idleConns s" by simp_all
  from Cons.IH [OF b r] i show ?case by blast
qed

text \<open>
  C9.  The \<^verbatim>\<open>ConnState\<close> callback of a connection that becomes idle (the sub server
  has its gateway): when the shutdown channel is not closed the connection is added to the
  idle set; when it is closed the handler closes the connection and the connection is not
  in the idle set afterwards.  So, once the shutdown has begun, whatever callbacks follow,
  the idle set gets no new member.
\<close>

theorem C9_idle_conn:
  assumes "gw s = Some g"
  shows "(\<not> shutdownCh_closed g \<longrightarrow>
            connStateHandler dm ra s c StateIdle = Inr (s\<lparr>idleConns := insert c (idleConns s)\<rparr>)) \<and>
         (shutdownCh_closed g \<longrightarrow>
            connStateHandler dm ra s c StateIdle
              = Inr (s\<lparr>closedConns := insert c (closedConns s), idleConns := idleConns s - {c}\<rparr>) \<and>
            (\<forall>evs s'. connStates dm ra s evs = Inr s' \<longrightarrow> idleConns s' \<subseteq> idleConns s))"
proof -
  have "shutdownCh_closed g \<Longrightarrow> shutdownBegun s"
    using assms by (simp add: shutdownBegun_def)
  then show ?thesis
    using assms connStates_shutdown [of s dm ra]
    by (auto simp: connStateHandler_def)
qed

theorem C9_idle_conn_witness:
  "gw (\<lparr>gw = Some \<lparr>shutdownCh_closed = False, ConcurrentSub = 0, ConcurrentSubWs = 0\<rparr>, idleConnsWg = 1, activeConnN = 1,
          closedConnCh = [], idleConns = {}, closedConns = {}\<rparr> :: nat subServer)
     = Some \<lparr>shutdownCh_closed = False, ConcurrentSub = 0, ConcurrentSubWs = 0\<rparr> \<and>
   connStateHandler False (\<lambda>c. ''addr'')
       (\<lparr>gw = Some \<lparr>shutdownCh_closed = False, ConcurrentSub = 0, ConcurrentSubWs = 0\<rparr>, idleConnsWg = 1, activeConnN = 1,
          closedConnCh = [], idleConns = {}, closedConns = {}\<rparr>) (1::nat) StateIdle
     = Inr (\<lparr>gw = Some \<lparr>shutdownCh_closed = False, ConcurrentSub = 0, ConcurrentSubWs = 0\<rparr>, idleConnsWg = 1, activeConnN = 1,
          closedConnCh = [], idleConns = {1}, closedConns = {}\<rparr>) \<and>
   gw (\<lparr>gw = Some \<lparr>shutdownCh_closed = True, ConcurrentSub = 0, ConcurrentSubWs = 0\<rparr>, idleConnsWg = 1, activeConnN = 1,
          closedConnCh = [], idleConns = {1::nat}, closedConns = {}\<rparr>)
     = Some \<lparr>shutdownCh_closed = True, ConcurrentSub = 0, ConcurrentSubWs = 0\<rparr> \<and>
   connStateHandler False (\<lambda>c. ''addr'')
       (\<lparr>gw = Some \<lparr>shutdownCh_closed = True, ConcurrentSub = 0, ConcurrentSubWs = 0\<rparr>, idleConnsWg = 1, activeConnN = 1,
          closedConnCh = [], idleConns = {1::nat}, closedConns = {}\<rparr>) 1 StateIdle
     = Inr (\<lparr>gw = Some \<lparr>shutdownCh_closed = True, ConcurrentSub = 0, ConcurrentSubWs = 0\<rparr>, idleConnsWg = 1, activeConnN = 1,
          closedConnCh = [], idleConns = {}, closedConns = {1::nat}\<rparr>) \<and>
   connStates False (\<lambda>c. ''addr'')
       (\<lparr>gw = Some \<lparr>shutdownCh_closed = True, ConcurrentSub = 0, ConcurrentSubWs = 0\<rparr>, idleConnsWg = 1, activeConnN = 1,
          closedConnCh = [], idleConns = {1::nat}, closedConns = {}\<rparr>) [(2, StateNew), (2, StateActive), (2, StateIdle)]
     = Inr (\<lparr>gw = Some \<lparr>shutdownCh_closed = True, ConcurrentSub = 1, ConcurrentSubWs = 0\<rparr>,
          idleConnsWg = 2, activeConnN = 2,
          closedConnCh = [], idleConns = {1::nat}, closedConns = {2}\<rparr>)"
proof -
  have g0: "gw (\<lparr>gw = Some \<lparr>shutdownCh_closed = False, ConcurrentSub = 0, ConcurrentSubWs = 0\<rparr>, idleConnsWg = 1, activeConnN = 1,
          closedConnCh = [], idleConns = {}, closedConns = {}\<rparr> :: nat subServer)
     = Some \<lparr>shutdownCh_closed = False, ConcurrentSub = 0, ConcurrentSubWs = 0\<rparr>"
    by simp
  have g: "gw (\<lparr>gw = Some \<lparr>shutdownCh_closed = True, ConcurrentSub = 0, ConcurrentSubWs = 0\<rparr>, idleConnsWg = 1, activeConnN = 1,
          closedConnCh = [], idleConns = {1::nat}, closedConns = {}\<rparr>)
     = Some \<lparr>shutdownCh_closed = True, ConcurrentSub = 0, ConcurrentSubWs = 0\<rparr>"
    by simp
  have r: "connStates False (\<lambda>c. ''addr'')
       (\<lparr>gw = Some \<lparr>shutdownCh_closed = True, ConcurrentSub = 0, ConcurrentSubWs = 0\<rparr>, idleConnsWg = 1, activeConnN = 1,
          closedConnCh = [], idleConns = {1::nat}, closedConns = {}\<rparr>) [(2, StateNew), (2, StateActive), (2, StateIdle)]
     = Inr (\<lparr>gw = Some \<lparr>shutdownCh_closed = True, ConcurrentSub = 1, ConcurrentSubWs = 0\<rparr>,
          idleConnsWg = 2, activeConnN = 2,
          closedConnCh = [], idleConns = {1::nat}, closedConns = {2}\<rparr>)"
    by (simp add: connStateHandler_def withMetrics_def)
  from C9_idle_conn [OF g0, of False "\<lambda>c. ''addr''" 1]
  have o: "connStateHandler False (\<lambda>c. ''addr'')
       (\<lparr>gw = Some \<lparr>shutdownCh_closed = False, ConcurrentSub = 0, ConcurrentSubWs = 0\<rparr>, idleConnsWg = 1, activeConnN = 1,
          closedConnCh = [], idleConns = {}, closedConns = {}\<rparr>) (1::nat) StateIdle
     = Inr (\<lparr>gw = Some \<lparr>shutdownCh_closed = False, ConcurrentSub = 0, ConcurrentSubWs = 0\<rparr>, idleConnsWg = 1, activeConnN = 1,
          closedConnCh = [], idleConns = {1}, closedConns = {}\<rparr>)"
    by simp
  from C9_idle_conn [OF g, of False "\<lambda>c. ''addr''" 1]
  have c: "connStateHandler False (\<lambda>c. ''addr'')
       (\<lparr>gw = Some \<lparr>shutdownCh_closed = True, ConcurrentSub = 0, ConcurrentSubWs = 0\<rparr>, idleConnsWg = 1, activeConnN = 1,
          closedConnCh = [], idleConns = {1::nat}, closedConns = {}\<rparr>) 1 StateIdle
     = Inr (\<lparr>gw = Some \<lparr>shutdownCh_closed = True, ConcurrentSub = 0, ConcurrentSubWs = 0\<rparr>, idleConnsWg = 1, activeConnN = 1,
          closedConnCh = [], idleConns = {}, closedConns = {1::nat}\<rparr>)"
    by simp
  from g0 o g c r show ?thesis by blast
qed

section \<open>The disk service\<close>

subsection \<open>Loading queues leaves the service closed\<close>

lemma createAndOpenQueue_closed:
  "createAndOpenQueue env this ct start w = Inr (err, this1, w1) \<Longrightarrow> closed this \<Longrightarrow> closed this1"
  by (auto simp: createAndOpenQueue_def split: sum.splits prod.splits if_splits option.splits)

lemma loadTopics_closed:
  "loadTopics env this cname topics start w = Inr (err, this1, w1) \<Longrightarrow> closed this \<Longrightarrow> closed this1"
proof (induction topics arbitrary: this w)
  case Nil
  then show ?case by simp
next
  case (Cons t topics)
  obtain tname isDir where t: "t = (tname, isDir)" by (cases t)
  show ?case
  proof (cases isDir)
    case False
    with Cons t show ?thesis by simp
  next
    case True
    show ?thesis
    proof (cases "createAndOpenQueue env this \<lparr>cluster = cname, topic = tname\<rparr> start w")
      case (Inl p)
      with True t Cons.prems show ?thesis by simp
    next
      case (Inr r)
      obtain e this2 w2 where r: "r = (e, this2, w2)" by (cases r)
      have c: "closed this2"
        using createAndOpenQueue_closed [of env this _ start w e this2 w2] Inr r Cons.prems(2) by simp
      show ?thesis
      proof (cases e)
        case None
        with True Inr r t Cons.prems(1)
        have "loadTopics env this2 cname topics start w2 = Inr (err, this1, w1)" by simp
        from Cons.IH [OF this c] show ?thesis .
      next
        case (Some a)
        with True Inr r t Cons.prems(1) c show ?thesis by simp
      qed
    qed
  qed
qed

lemma loadClusters_closed:
  "loadClusters env this dir clusters start w = Inr (err, this1, w1) \<Longrightarrow> closed this \<Longrightarrow> closed this1"
proof (induction clusters arbitrary: this w)
  case Nil
  then show ?case by simp
next
  case (Cons cl clusters)
  obtain cname isDir where cl: "cl = (cname, isDir)" by (cases cl)
  show ?case
  proof (cases isDir)
    case False
    with Cons cl show ?thesis by simp
  next
    case True
    show ?thesis
    proof (cases "readDir env (joinPath env dir cname) w")
      case (Inl e)
      with True cl Cons.prems show ?thesis by simp
    next
      case rd: (Inr topics)
      show ?thesis
      proof (cases "loadTopics env this cname topics start w")
        case (Inl p)
        with True cl rd Cons.prems show ?thesis by simp
      next
        case (Inr r)
        obtain e this2 w2 where r: "r = (e, this2, w2)" by (cases r)
        have c: "closed this2"
          using loadTopics_closed [of env this cname topics start w e this2 w2] Inr r Cons.prems(2)
          by simp
        show ?thesis
        proof (cases e)
          case None
          with True Inr r cl rd Cons.prems(1)
          have "loadClusters env this2 dir clusters start w2 = Inr (err, this1, w1)" by simp
          from Cons.IH [OF this c] show ?thesis .
        next
          case (Some a)
          with True Inr r cl rd Cons.prems(1) c show ?thesis by simp
        qed
      qed
    qed
  qed
qed

lemma loadQueues_closed:
  "loadQueues env this dir start w = Inr (err, this1, w1) \<Longrightarrow> closed this \<Longrightarrow> closed this1"
  by (cases "readDir env dir w") (auto simp: loadQueues_def dest: loadClusters_closed)

subsection \<open>The service stays closed until a start succeeds\<close>

lemma startDirs_closed:
  "startDirs env this dirs w = Inr (err, this1, w1) \<Longrightarrow> closed this \<Longrightarrow> closed this1"
proof (induction dirs arbitrary: this w)
  case Nil
  then show ?case by simp
next
  case (Cons dir dirs)
  obtain e0 w0 where m: "mkdirIfNotExist env dir w = (e0, w0)" by (cases "mkdirIfNotExist env dir w")
  show ?case
  proof (cases e0)
    case (Some a)
    with m Cons.prems show ?thesis by simp
  next
    case None
    show ?thesis
    proof (cases "loadQueues env this dir True w0")
      case (Inl p)
      with None m Cons.prems show ?thesis by simp
    next
      case (Inr r)
      obtain e this2 w2 where r: "r = (e, this2, w2)" by (cases r)
      have c: "closed this2"
        using loadQueues_closed [of env this dir True w0 e this2 w2] Inr r Cons.prems(2) by simp
      show ?thesis
      proof (cases e)
        case n: None
        with None m Inr r Cons.prems(1)
        have "startDirs env this2 dirs w2 = Inr (err, this1, w1)" by simp
        from Cons.IH [OF this c] show ?thesis .
      next
        case (Some a)
        with None m Inr r Cons.prems(1) c show ?thesis by simp
      qed
    qed
  qed
qed

lemma flushLoadDirs_closed:
  "flushLoadDirs env this dirs w = Inr (err, this1, w1) \<Longrightarrow> closed this \<Longrightarrow> closed this1"
proof (induction dirs arbitrary: this w)
  case Nil
  then show ?case by simp
next
  case (Cons dir dirs)
  show ?case
  proof (cases "loadQueues env this dir False w")
    case (Inl p)
    with Cons.prems show ?thesis by simp
  next
    case (Inr r)
    obtain e this2 w2 where r: "r = (e, this2, w2)" by (cases r)
    have c: "closed this2"
      using loadQueues_closed [of env this dir False w e this2 w2] Inr r Cons.prems(2) by simp
    show ?thesis
    proof (cases e)
      case None
      with Inr r Cons.prems(1)
      have "flushLoadDirs env this2 dirs w2 = Inr (err, this1, w1)" by simp
      from Cons.IH [OF this c] show ?thesis .
    next
      case (Some a)
      with Inr r Cons.prems(1) c show ?thesis by simp
    qed
  qed
qed

lemma Start_failed_closed:
  assumes "Start env this w = Inr (Some e, this1, w1)" and "closed this"
  shows "closed this1"
proof (cases "startDirs env this (Dirs (cfg this)) w")
  case (Inl p)
  with assms(1) show ?thesis by (simp add: Start_def)
next
  case (Inr r)
  obtain e' this2 w2 where r: "r = (e', this2, w2)" by (cases r)
  from assms(1) Inr r have "e' = Some e" and "this2 = this1"
    by (cases e'; simp add: Start_def)+
  with startDirs_closed [of env this "Dirs (cfg this)" w e' this2 w2] Inr r assms(2)
  show ?thesis by simp
qed

lemma flushInflightsClosed_closed:
  assumes "flushInflightsClosed env this w = Inr (this1, w1, lg)" and "closed this"
  shows "closed this1"
proof (cases "flushLoadDirs env this (Dirs (cfg this)) w")
  case (Inl p)
  with assms(1) show ?thesis by (simp add: flushInflightsClosed_def)
next
  case (Inr r)
  obtain e this2 w2 where r: "r = (e, this2, w2)" by (cases r)
  have c: "closed this2"
    using flushLoadDirs_closed [of env this "Dirs (cfg this)" w e this2 w2] Inr r assms(2) by simp
  show ?thesis
  proof (cases e)
    case None
    with assms(1) Inr r c show ?thesis
      by (auto simp: flushInflightsClosed_def split: prod.splits)
  next
    case (Some de)
    with assms(1) Inr r c show ?thesis
      by (cases de) (auto simp: flushInflightsClosed_def)
  qed
qed

lemma callService_closed:
  assumes "closed this" and "callService env (this, w) call = Inr ((this1, w1), r)"
    and "\<not> (call = CallStart \<and> r = RetError None)"
  shows "closed this1"
proof (cases call)
  case CallStart
  show ?thesis
  proof (cases "Start env this w")
    case (Inl p)
    with CallStart assms(2) show ?thesis by (simp add: callService_def)
  next
    case (Inr x)
    obtain e' this2 w2 where x: "x = (e', this2, w2)" by (cases x)
    with Inr CallStart assms(2) have eq: "this2 = this1" "w2 = w1" "r = RetError e'"
      by (simp_all add: callService_def)
    with assms(3) CallStart obtain e where "e' = Some e" by (cases e') auto
    with Inr x eq have "Start env this w = Inr (Some e, this1, w1)" by simp
    from Start_failed_closed [OF this assms(1)] show ?thesis .
  qed
next
  case CallStop
  with assms(1,2) show ?thesis by (simp add: callService_def Stop_def)
next
  case (CallAppend cl tp k v)
  with assms(1,2) show ?thesis by (auto simp: callService_def Append_def)
next
  case CallFlushInflights
  show ?thesis
  proof (cases "flushInflightsClosed env this w")
    case (Inl p)
    with CallFlushInflights assms(1,2) show ?thesis
      by (simp add: callService_def FlushInflights_def)
  next
    case (Inr x)
    obtain this2 w2 lg where x: "x = (this2, w2, lg)" by (cases x)
    with Inr CallFlushInflights assms(1,2) have "this2 = this1"
      by (simp add: callService_def FlushInflights_def)
    with flushInflightsClosed_closed [of env this w this2 w2 lg] Inr x assms(1)
    show ?thesis by simp
  qed
next
  case CallInflights
  with assms(1,2) show ?thesis by (simp add: callService_def)
next
  case (CallEmpty cl tp)
  with assms(1,2) show ?thesis by (simp add: callService_def)
qed

lemma runService_closed:
  assumes "closed this" and "runService env (this, w) calls = Inr ((this1, w1), rets)"
    and "\<not> startSucceeded calls rets"
  shows "closed this1"
  using assms
proof (induction calls arbitrary: this w rets)
  case Nil
  then show ?case by simp
next
  case (Cons call calls)
  show ?case
  proof (cases "callService env (this, w) call")
    case (Inl p)
    with Cons.prems(2) show ?thesis by simp
  next
    case (Inr x)
    obtain this2 w2 r where x: "x = ((this2, w2), r)" by (cases x) auto
    show ?thesis
    proof (cases "runService env (this2, w2) calls")
      case il: (Inl p)
      with Inr x Cons.prems(2) show ?thesis by simp
    next
      case ir: (Inr y)
      obtain st rs where y: "y = (st, rs)" by (cases y)
      with Inr x ir Cons.prems(2) have st: "st = (this1, w1)" and rets: "rets = r # rs"
        by simp_all
      from Cons.prems(3) rets have n1: "\<not> (call = CallStart \<and> r = RetError None)"
        and n2: "\<not> startSucceeded calls rs"
        by (auto simp: startSucceeded_def)
      from Inr x have c: "callService env (this, w) call = Inr ((this2, w2), r)" by simp
      from callService_closed [OF Cons.prems(1) c n1] have c2: "closed this2" .
      from ir y st have "runService env (this2, w2) calls = Inr ((this1, w1), rs)" by simp
      from Cons.IH [OF c2 this n2] show ?thesis .
    qed
  qed
qed

subsection \<open>The guards of the service\<close>

text \<open>
  C7.  \<^verbatim>\<open>FlushInflights\<close> on a service that is open (\<^verbatim>\<open>closed == false\<close>) logs one
  error and returns: no queue is loaded, nothing is replayed, the service and the disk are
  as they were.  Only on a closed service does it go on to load the queues and replay.
\<close>

theorem C7_FlushInflights_guard:
  "(\<not> closed this \<longrightarrow> FlushInflights env this w = Inr (this, w, [LogRunFlushInflights])) \<and>
   (closed this \<longrightarrow> FlushInflights env this w = flushInflightsClosed env this w)"
  by (simp add: FlushInflights_def)

theorem C7_FlushInflights_guard_witness:
  "\<not> closed (\<lparr>cfg = \<lparr>Dirs = [''d''], PurgeInterval = 600, MaxAge = 604800\<rparr>, closed = False, queues = []\<rparr> :: block list Service) \<and>
   FlushInflights emptyDisk \<lparr>cfg = \<lparr>Dirs = [''d''], PurgeInterval = 600, MaxAge = 604800\<rparr>, closed = False, queues = []\<rparr> ()
     = Inr (\<lparr>cfg = \<lparr>Dirs = [''d''], PurgeInterval = 600, MaxAge = 604800\<rparr>, closed = False, queues = []\<rparr>, (), [LogRunFlushInflights]) \<and>
   closed (\<lparr>cfg = \<lparr>Dirs = [''d''], PurgeInterval = 600, MaxAge = 604800\<rparr>, closed = True, queues = []\<rparr> :: block list Service) \<and>
   FlushInflights emptyDisk \<lparr>cfg = \<lparr>Dirs = [''d''], PurgeInterval = 600, MaxAge = 604800\<rparr>, closed = True, queues = []\<rparr> ()
     = flushInflightsClosed emptyDisk \<lparr>cfg = \<lparr>Dirs = [''d''], PurgeInterval = 600, MaxAge = 604800\<rparr>, closed = True, queues = []\<rparr> ()"
  using C7_FlushInflights_guard [of "\<lparr>cfg = \<lparr>Dirs = [''d''], PurgeInterval = 600, MaxAge = 604800\<rparr>, closed = False, queues = []\<rparr>" emptyDisk "()"]
    C7_FlushInflights_guard [of "\<lparr>cfg = \<lparr>Dirs = [''d''], PurgeInterval = 600, MaxAge = 604800\<rparr>, closed = True, queues = []\<rparr>" emptyDisk "()"]
  by simp

text \<open>
  C8.  \<^verbatim>\<open>Append\<close> on a closed service returns \<^verbatim>\<open>ErrNotOpen\<close>, for every cluster,
  topic, key and value; the registry of queues and the disk are unchanged (no queue is
  looked up or created, no block is written).
\<close>

theorem C8_Append_closed:
  assumes "closed this"
  shows "Append env this cl tp k v w = Inr (Some ErrNotOpen, this, w)"
  using assms by (simp add: Append_def)

theorem C8_Append_closed_witness:
  "closed (\<lparr>cfg = \<lparr>Dirs = [''d''], PurgeInterval = 600, MaxAge = 604800\<rparr>, closed = True, queues = []\<rparr> :: block list Service) \<and>
   Append emptyDisk \<lparr>cfg = \<lparr>Dirs = [''d''], PurgeInterval = 600, MaxAge = 604800\<rparr>, closed = True, queues = []\<rparr> ''c'' ''t'' ''k'' ''v'' ()
     = Inr (Some ErrNotOpen, \<lparr>cfg = \<lparr>Dirs = [''d''], PurgeInterval = 600, MaxAge = 604800\<rparr>, closed = True, queues = []\<rparr>, ())"
  using C8_Append_closed [of "\<lparr>cfg = \<lparr>Dirs = [''d''], PurgeInterval = 600, MaxAge = 604800\<rparr>, closed = True, queues = []\<rparr>" emptyDisk "''c''" "''t''" "''k''" "''v''" "()"]
  by simp

text \<open>
  C10.  The service that \<^verbatim>\<open>New\<close> returns is closed.  After any calls of the service
  among which no \<^verbatim>\<open>Start\<close> returned \<^verbatim>\<open>nil\<close>, it is still closed: every
  \<^verbatim>\<open>Append\<close> returns \<^verbatim>\<open>ErrNotOpen\<close> and leaves everything unchanged, and
  \<^verbatim>\<open>FlushInflights\<close> passes its test of \<^verbatim>\<open>closed\<close> and does its work.
\<close>

theorem C10_closed_until_started:
  assumes "runService env (New env c w0) calls = Inr ((this, w), rets)"
    and "\<not> startSucceeded calls rets"
  shows "closed (fst (New env c w0)) \<and> closed this \<and>
         Append env this cl tp k v w = Inr (Some ErrNotOpen, this, w) \<and>
         FlushInflights env this w = flushInflightsClosed env this w"
proof -
  have n: "closed (fst (New env c w0))" by (simp add: New_def)
  obtain s0 w1 where st: "New env c w0 = (s0, w1)" by (cases "New env c w0")
  with n have s0: "closed s0" by simp
  from assms(1) st have "runService env (s0, w1) calls = Inr ((this, w), rets)" by simp
  from runService_closed [OF s0 this assms(2)] have "closed this" .
  with n show ?thesis by (simp add: Append_def FlushInflights_def)
qed

theorem C10_closed_until_started_witness:
  "runService (emptyDisk\<lparr>mkdirIfNotExist := \<lambda>dir w. (Some (Err ''denied''), w)\<rparr>)
       (New (emptyDisk\<lparr>mkdirIfNotExist := \<lambda>dir w. (Some (Err ''denied''), w)\<rparr>) \<lparr>Dirs = [''d''], PurgeInterval = 600, MaxAge = 604800\<rparr> ())
       [CallStart, CallFlushInflights]
     = Inr ((\<lparr>cfg = \<lparr>Dirs = [''d''], PurgeInterval = 600, MaxAge = 604800\<rparr>, closed = True, queues = []\<rparr>, ()),
            [RetError (Some (Err ''denied'')), RetLog []]) \<and>
   \<not> startSucceeded [CallStart, CallFlushInflights] [RetError (Some (Err ''denied'')), RetLog []] \<and>
   closed (\<lparr>cfg = \<lparr>Dirs = [''d''], PurgeInterval = 600, MaxAge = 604800\<rparr>, closed = True, queues = []\<rparr> :: block list Service) \<and>
   Append (emptyDisk\<lparr>mkdirIfNotExist := \<lambda>dir w. (Some (Err ''denied''), w)\<rparr>)
       \<lparr>cfg = \<lparr>Dirs = [''d''], PurgeInterval = 600, MaxAge = 604800\<rparr>, closed = True, queues = []\<rparr> ''c'' ''t'' ''k'' ''v'' ()
     = Inr (Some ErrNotOpen, \<lparr>cfg = \<lparr>Dirs = [''d''], PurgeInterval = 600, MaxAge = 604800\<rparr>, closed = True, queues = []\<rparr>, ())"
proof -
  have r: "runService (emptyDisk\<lparr>mkdirIfNotExist := \<lambda>dir w. (Some (Err ''denied''), w)\<rparr>)
       (New (emptyDisk\<lparr>mkdirIfNotExist := \<lambda>dir w. (Some (Err ''denied''), w)\<rparr>) \<lparr>Dirs = [''d''], PurgeInterval = 600, MaxAge = 604800\<rparr> ())
       [CallStart, CallFlushInflights]
     = Inr ((\<lparr>cfg = \<lparr>Dirs = [''d''], PurgeInterval = 600, MaxAge = 604800\<rparr>, closed = True, queues = []\<rparr>, ()),
            [RetError (Some (Err ''denied'')), RetLog []])"
    by (simp add: New_def callService_def Start_def FlushInflights_def flushInflightsClosed_def
        loadQueues_def emptyDisk_def)
  have n: "\<not> startSucceeded [CallStart, CallFlushInflights] [RetError (Some (Err ''denied'')), RetLog []]"
    by (simp add: startSucceeded_def)
  from C10_closed_until_started [OF r n, of "''c''" "''t''" "''k''" "''v''"] r n
  show ?thesis by simp
qed

section \<open>The acked offsets stay a map\<close>

text \<open>
  The mapping starts empty; recording acks and flushing keep every key once at every
  level, so the flush theorem applies to every state the committer reaches.
\<close>

lemma wf_ackedOffsets_empty: "wf_ackedOffsets []"
  by (simp add: wf_ackedOffsets_def wf_level_def)

lemma wf_level_Nil: "wf_level Q []"
  by (simp add: wf_level_def)

lemma wf_level_lookup: "wf_level Q m \<Longrightarrow> map_of m k = Some v \<Longrightarrow> Q v"
  by (force simp: wf_level_def dest: map_of_SomeD)

lemma update_set_subset: "set (AList.update k v m) \<subseteq> insert (k, v) (set m)"
  by (induction m) auto

lemma wf_level_update:
  assumes "wf_level Q m" and "Q v"
  shows "wf_level Q (AList.update k v m)"
proof -
  have "Q b" if "(a, b) \<in> set (AList.update k v m)" for a b
  proof -
    from that update_set_subset [of k v m] have "(a, b) = (k, v) \<or> (a, b) \<in> set m" by blast
    with assms show ?thesis by (force simp: wf_level_def)
  qed
  with assms(1) show ?thesis by (auto simp: wf_level_def distinct_update)
qed

lemma rangeMap_values:
  assumes "\<And>k v s. Q v \<Longrightarrow> Q (fst (f k v s))"
  shows "(\<forall>v \<in> snd ` set m. Q v) \<Longrightarrow> (\<forall>v' \<in> snd ` set (fst (rangeMap f m s)). Q v')"
proof (induction m arbitrary: s)
  case Nil
  then show ?case by simp
next
  case (Cons kv m)
  obtain k v where kv: "kv = (k, v)" by (cases kv)
  from Cons.prems kv have "Q v" and rest: "\<forall>v \<in> snd ` set m. Q v" by simp_all
  from assms [OF \<open>Q v\<close>] have "Q (fst (f k v s))" .
  moreover from Cons.IH [OF rest] have "\<forall>v' \<in> snd ` set (fst (rangeMap f m (snd (f k v s)))). Q v'" .
  ultimately show ?case by (simp add: kv rangeMap_Cons del: rangeMap.simps(2))
qed

lemma wf_level_rangeMap:
  assumes "wf_level Q m" and "\<And>k v s. Q v \<Longrightarrow> Q (fst (f k v s))"
  shows "wf_level Q (fst (rangeMap f m s))"
  using assms(1) rangeMap_values [of Q f m s, OF assms(2)]
  by (simp add: wf_level_def rangeMap_keys)

lemma wf_assign2:
  assumes "wf_ackedOffsets ao" and "wf_level (\<lambda>po. distinct (map fst po)) v"
    and "assign2 ao c t v = Inr ao'"
  shows "wf_ackedOffsets ao'"
proof -
  from assms(3) obtain ct where ct: "map_of ao c = Some ct"
    and ao': "ao' = AList.update c (AList.update t v ct) ao"
    by (auto simp: assign2_def split: option.splits)
  let ?Q = "\<lambda>po :: partitionOffsets. distinct (map fst po)"
  from assms(1) have w0: "wf_level (wf_level (wf_level ?Q)) ao" by (simp add: wf_ackedOffsets_def)
  from wf_level_lookup [OF w0 ct] have w1: "wf_level (wf_level ?Q) ct" .
  from wf_level_update [OF w1 assms(2)] have "wf_level (wf_level ?Q) (AList.update t v ct)" .
  from wf_level_update [OF w0 this] ao' show ?thesis by (simp add: wf_ackedOffsets_def)
qed

lemma wf_assign3:
  assumes "wf_ackedOffsets ao" and "distinct (map fst v)"
    and "assign3 ao c t g v = Inr ao'"
  shows "wf_ackedOffsets ao'"
proof -
  from assms(3) obtain ct gp where ct: "map_of ao c = Some ct" and gp: "map_of ct t = Some gp"
    and ao': "ao' = AList.update c (AList.update t (AList.update g v gp) ct) ao"
    by (auto simp: assign3_def split: option.splits)
  let ?Q = "\<lambda>po :: partitionOffsets. distinct (map fst po)"
  from assms(1) have w0: "wf_level (wf_level (wf_level ?Q)) ao" by (simp add: wf_ackedOffsets_def)
  from wf_level_lookup [OF w0 ct] have w1: "wf_level (wf_level ?Q) ct" .
  from wf_level_lookup [OF w1 gp] have w2: "wf_level ?Q gp" .
  from wf_level_update [OF w2 assms(2)] have "wf_level ?Q (AList.update g v gp)" .
  from wf_level_update [OF w1 this] have "wf_level (wf_level ?Q) (AList.update t (AList.update g v gp) ct)" .
  from wf_level_update [OF w0 this] ao' show ?thesis by (simp add: wf_ackedOffsets_def)
qed

lemma wf_assign4:
  assumes "wf_ackedOffsets ao" and "assign4 ao c t g p v = Inr ao'"
  shows "wf_ackedOffsets ao'"
proof -
  from assms(2) obtain ct gp po where ct: "map_of ao c = Some ct" and gp: "map_of ct t = Some gp"
    and po: "map_of gp g = Some po"
    and ao': "ao' = AList.update c (AList.update t (AList.update g (AList.update p v po) gp) ct) ao"
    by (auto simp: assign4_def split: option.splits)
  let ?Q = "\<lambda>po :: partitionOffsets. distinct (map fst po)"
  from assms(1) have w0: "wf_level (wf_level (wf_level ?Q)) ao" by (simp add: wf_ackedOffsets_def)
  from wf_level_lookup [OF w0 ct] have w1: "wf_level (wf_level ?Q) ct" .
  from wf_level_lookup [OF w1 gp] have w2: "wf_level ?Q gp" .
  from wf_level_lookup [OF w2 po] have "?Q po" .
  then have "?Q (AList.update p v po)" by (simp add: distinct_update)
  from wf_level_update [OF w2 this] have "wf_level ?Q (AList.update g (AList.update p v po) gp)" .
  from wf_level_update [OF w1 this]
  have "wf_level (wf_level ?Q) (AList.update t (AList.update g (AList.update p v po) gp) ct)" .
  from wf_level_update [OF w0 this] ao' show ?thesis by (simp add: wf_ackedOffsets_def)
qed

lemma wf_recordAck:
  assumes "wf_ackedOffsets ao" and "recordAck ao ack = Inr ao'"
  shows "wf_ackedOffsets ao'"
proof -
  let ?ao1 = "if \<not> present ao (ack_cluster ack) then AList.update (ack_cluster ack) [] ao else ao"
  have w1: "wf_ackedOffsets ?ao1"
    using assms(1) unfolding wf_ackedOffsets_def
    by (auto intro!: wf_level_update wf_level_Nil)
  from assms(2) obtain ao2 ao3 where
    a2: "(if \<not> present (index ?ao1 (ack_cluster ack)) (ack_topic ack)
          then assign2 ?ao1 (ack_cluster ack) (ack_topic ack) [] else Inr ?ao1) = Inr ao2"
    and a3: "(if \<not> present (index ao2 (ack_topic ack)) (ack_group ack)
          then assign3 ao2 (ack_cluster ack) (ack_topic ack) (ack_group ack) [] else Inr ao2) = Inr ao3"
    and a4: "assign4 ao3 (ack_cluster ack) (ack_topic ack) (ack_group ack)
               (ack_Partition ack) (ack_Offset ack) = Inr ao'"
    by (auto simp: recordAck_def Let_def split: sum.splits)
  from a2 w1 have w2: "wf_ackedOffsets ao2"
    by (cases "present (index ?ao1 (ack_cluster ack)) (ack_topic ack)")
       (auto intro: wf_assign2 [OF _ wf_level_Nil])
  from a3 w2 have w3: "wf_ackedOffsets ao3"
    by (cases "present (index ao2 (ack_topic ack)) (ack_group ack)")
       (auto intro: wf_assign3 [where v = "[]"])
  from wf_assign4 [OF w3 a4] show ?thesis .
qed

lemma wf_recordAcks:
  "wf_ackedOffsets ao \<Longrightarrow> recordAcks ao acks = Inr ao' \<Longrightarrow> wf_ackedOffsets ao'"
  by (induction acks arbitrary: ao) (auto split: sum.splits dest: wf_recordAck)

lemma wf_commitOffsets:
  assumes "wf_ackedOffsets ao"
  shows "wf_ackedOffsets (fst (commitOffsets reset ao z))"
proof -
  have "wf_ackedOffsets (fst (rangeMap (\<lambda>cl. rangeMap (\<lambda>tp. rangeMap (\<lambda>grp. rangeMap (commitSlot reset cl tp grp)))) ao s))" for s
    using assms unfolding wf_ackedOffsets_def
    by (intro wf_level_rangeMap) (simp_all add: rangeMap_keys)
  from this [of "(z, [])"] show ?thesis
    by (simp add: commitOffsets_def split: prod.splits)
qed

text \<open>
  The misplaced test can also make the committer panic: when a cluster named like the
  ack's topic has a topic named like the ack's group, the group map is not made and the
  offset is assigned into the nil map.
\<close>

lemma recordAck_panics:
  "recordAck [(''t'', [(''g'', [(''x'', [(0, 1)])])])]
     \<lparr>ack_cluster = ''c'', ack_topic = ''t'', ack_group = ''g'', ack_Partition = 0, ack_Offset = 5\<rparr>
     = Inl AssignToNilMap"
  by (simp add: recordAck_def present_def index_def assign2_def assign3_def assign4_def Let_def)

end
